theory Spec2Isabelle
  imports Main "HOL-Library.Word" "HOL-Library.Signed_Division"
begin

unbundle bit_operations_syntax

section \<open>The RV32 interpreter core (src/rv32\_template.c)\<close>

text \<open>
  The instruction bodies of \<^verbatim>\<open>rv32_template.c\<close> are embedded for the interpreter
  build with the M and C extensions and without the tier-1 JIT (the \<^verbatim>\<open>X64\<close> emission
  sequences and the \<^verbatim>\<open>#if RV32_HAS(JIT)\<close> parts are not part of the interpreter).
  Every \<^verbatim>\<open>do_<op>\<close> takes the decoded record \<^verbatim>\<open>ir\<close>, the machine \<^verbatim>\<open>rv\<close>, the running
  \<^verbatim>\<open>cycle\<close> count and the running \<^verbatim>\<open>PC\<close>, and either tail-calls the implementation of
  a successor record or returns to the outer loop.
\<close>

subsection \<open>Data\<close>

type_synonym u8 = "8 word"
type_synonym u16 = "16 word"
type_synonym u32 = "32 word"
type_synonym u64 = "64 word"

datatype misalign_kind = insn | load | store

text \<open>One entry per invocation of a host memory callback, in program order.\<close>

datatype io_call =
    Call_mem_read_b u32
  | Call_mem_read_s u32
  | Call_mem_read_w u32
  | Call_mem_write_b u32 u8
  | Call_mem_write_s u32 u16
  | Call_mem_write_w u32 u32

text \<open>
  The host callback table \<^verbatim>\<open>rv->io\<close>. The callbacks are supplied by the host, so they
  are parameters here; \<open>'h\<close> is whatever state the host keeps behind them.
\<close>

record 'h riscv_io =
  mem_read_b :: "'h \<Rightarrow> u32 \<Rightarrow> u8"
  mem_read_s :: "'h \<Rightarrow> u32 \<Rightarrow> u16"
  mem_read_w :: "'h \<Rightarrow> u32 \<Rightarrow> u32"
  mem_write_b :: "'h \<Rightarrow> u32 \<Rightarrow> u8 \<Rightarrow> 'h"
  mem_write_s :: "'h \<Rightarrow> u32 \<Rightarrow> u16 \<Rightarrow> 'h"
  mem_write_w :: "'h \<Rightarrow> u32 \<Rightarrow> u32 \<Rightarrow> 'h"

text \<open>
  The branch history table owned by a JALR-class record: \<^verbatim>\<open>PC[i]\<close>, \<^verbatim>\<open>target[i]\<close>
  and the round-robin index. Records are referred to by handle (a number), where the C
  code holds a pointer.
\<close>

record branch_history_table =
  bt_PC :: "u32 list"
  bt_target :: "nat list"
  bt_idx :: nat

text \<open>
  The machine \<^verbatim>\<open>riscv_t\<close>, restricted to the fields the embedded instructions touch.
  \<open>F\<close> is the float register file, each register kept as its 32-bit pattern (the member
  \<^verbatim>\<open>v\<close> that FLW and FSW move).
  \<open>host\<close> is the host's state behind the callbacks and \<open>io_log\<close> records every callback
  invocation; \<open>misalign\<close> is the latch written by the misalignment handlers;
  \<open>block_map\<close> answers \<^verbatim>\<open>block_find(&rv->block_map, PC)\<close> with the handle of the
  block's head record; \<open>history\<close> is the store of branch history tables, by handle;
  \<open>is_branch_taken\<close> and \<open>last_pc\<close> are the interpreter's two globals.
\<close>

record 'h riscv =
  X :: "nat \<Rightarrow> u32"
  F :: "nat \<Rightarrow> u32"
  PC :: u32
  csr_cycle :: u64
  compressed :: bool
  misalign :: "(misalign_kind \<times> u32) option"
  io :: "'h riscv_io"
  host :: 'h
  io_log :: "io_call list"
  block_map :: "u32 \<Rightarrow> nat option"
  history :: "nat \<Rightarrow> branch_history_table"
  is_branch_taken :: bool
  last_pc :: u32

datatype rv_opcode =
    rv_insn_nop | rv_insn_lui | rv_insn_auipc | rv_insn_jal | rv_insn_jalr
  | rv_insn_beq | rv_insn_bne | rv_insn_blt | rv_insn_bge | rv_insn_bltu | rv_insn_bgeu
  | rv_insn_lb | rv_insn_lh | rv_insn_lw | rv_insn_lbu | rv_insn_lhu
  | rv_insn_sb | rv_insn_sh | rv_insn_sw
  | rv_insn_addi | rv_insn_slli | rv_insn_srli | rv_insn_srai
  | rv_insn_mulh | rv_insn_mulhsu | rv_insn_mulhu
  | rv_insn_div | rv_insn_divu | rv_insn_rem | rv_insn_remu
  | rv_insn_clw | rv_insn_csw | rv_insn_cjal | rv_insn_cli | rv_insn_csrli | rv_insn_csrai
  | rv_insn_cj | rv_insn_clwsp | rv_insn_cjr | rv_insn_cjalr | rv_insn_cswsp
  | rv_insn_lrw | rv_insn_scw | rv_insn_amoswapw | rv_insn_amoaddw | rv_insn_amoxorw
  | rv_insn_amoandw | rv_insn_amoorw | rv_insn_amominw | rv_insn_amomaxw
  | rv_insn_amominuw | rv_insn_amomaxuw | rv_insn_flw | rv_insn_fsw

text \<open>
  The decoded record \<^verbatim>\<open>rv_insn_t\<close>. \<open>imm\<close> is the C \<^verbatim>\<open>int32_t\<close> immediate, kept as
  its 32-bit pattern (the conversions to and from \<^verbatim>\<open>uint32_t\<close> are the identity on the
  pattern; a signed reading is written \<open>sint\<close>). \<open>next\<close>, \<open>branch_taken\<close> and
  \<open>branch_untaken\<close> are the successor pointers (\<open>None\<close> for \<^verbatim>\<open>NULL\<close>).
\<close>

record rv_insn =
  opcode :: rv_opcode
  rd :: nat
  rs1 :: nat
  rs2 :: nat
  imm :: u32
  shamt :: nat
  "next" :: "nat option"
  branch_taken :: "nat option"
  branch_untaken :: "nat option"
  branch_table :: nat

definition rv_reg_zero :: nat where "rv_reg_zero = 0"
definition rv_reg_ra :: nat where "rv_reg_ra = 1"
definition rv_reg_sp :: nat where "rv_reg_sp = 2"

text \<open>
  How one \<^verbatim>\<open>do_<op>\<close> ends: \<open>Tail_call t rv cycle PC\<close> is
  \<^verbatim>\<open>MUST_TAIL return t->impl(rv, t, cycle, PC)\<close>; \<open>Return b rv\<close> is \<^verbatim>\<open>return b\<close>
  with the machine left as \<open>rv\<close>; \<open>Unreachable\<close> is control reaching
  \<^verbatim>\<open>__UNREACHABLE\<close>.
\<close>

datatype 'h outcome =
    Tail_call nat "'h riscv" u64 u32
  | Return bool "'h riscv"
  | Unreachable

text \<open>
  What the code block of an instruction does: it reaches the label \<^verbatim>\<open>nextop\<close>
  (by falling off its end or by \<^verbatim>\<open>goto nextop\<close>), or it has returned.
\<close>

datatype 'h flow =
    Nextop "'h riscv"
  | Done "'h outcome"

text \<open>
  The machine an outcome carries, the PC the next instruction is dispatched or fetched
  at, and the cycle count it carries (for a return, the values written back).
\<close>

fun machine_of :: "'h outcome \<Rightarrow> 'h riscv option" where
  "machine_of (Tail_call t rv cycle pc) = Some rv"
| "machine_of (Return b rv) = Some rv"
| "machine_of Unreachable = None"

fun next_PC :: "'h outcome \<Rightarrow> u32 option" where
  "next_PC (Tail_call t rv cycle pc) = Some pc"
| "next_PC (Return b rv) = Some (PC rv)"
| "next_PC Unreachable = None"

fun returned :: "'h outcome \<Rightarrow> bool option" where
  "returned (Tail_call t rv cycle pc) = None"
| "returned (Return b rv) = Some b"
| "returned Unreachable = None"

definition set_X :: "'h riscv \<Rightarrow> nat \<Rightarrow> u32 \<Rightarrow> 'h riscv" where
  "set_X rv r v = rv\<lparr>X := (X rv)(r := v)\<rparr>"

subsection \<open>The macros of the interpreter\<close>

text \<open>
  Modelled from the spec: the macro \<^verbatim>\<open>RVOP\<close> is defined in the interpreter's driver,
  which is not among the source files. Section 4.4 gives its contract: execute the
  record's semantics, increment \<open>cycle\<close> by one, advance \<open>pc\<close> by the record's
  instruction size unless the semantics overrode it, dispatch the pre-linked successor
  in the same frame if there is one, otherwise write back \<open>pc\<close> and \<open>cycle\<close> and
  return true. The label \<^verbatim>\<open>nextop\<close>, which the code blocks jump to, is where the
  advance starts.
\<close>

definition nextop :: "nat \<Rightarrow> rv_insn \<Rightarrow> 'h riscv \<Rightarrow> u64 \<Rightarrow> u32 \<Rightarrow> 'h outcome" where
  "nextop len ir rv cycle PC' =
     (let PC' = PC' + of_nat len in
      case next ir of
        None \<Rightarrow> Return True (rv\<lparr>csr_cycle := cycle, PC := PC'\<rparr>)
      | Some n \<Rightarrow> Tail_call n rv cycle PC')"

definition RVOP ::
  "nat \<Rightarrow> (rv_insn \<Rightarrow> 'h riscv \<Rightarrow> u64 \<Rightarrow> u32 \<Rightarrow> 'h flow) \<Rightarrow>
   rv_insn \<Rightarrow> 'h riscv \<Rightarrow> u64 \<Rightarrow> u32 \<Rightarrow> 'h outcome" where
  "RVOP len code ir rv cycle PC' =
     (let cycle = cycle + 1 in
      case code ir rv cycle PC' of
        Nextop rv' \<Rightarrow> nextop len ir rv' cycle PC'
      | Done out \<Rightarrow> out)"

text \<open>
  Modelled from the spec: \<^verbatim>\<open>insn_is_misaligned\<close> and \<^verbatim>\<open>RV_EXC_MISALIGN_HANDLER\<close> are
  macros of the driver, not among the source files. The glossary calls an address
  misaligned when its low bits violate the size-specific alignment rule; with the C
  extension an instruction address must have bit 0 clear. Sections 4.5, 4.7 and 7:
  a misaligned access raises the exception of its kind at once, latches a dedicated
  field on the machine state, writes back PC and cycle and returns to the host, and the
  memory callback is not invoked. The macro's arguments are those of its uses in the
  template: a mask (for data) or the value reported (for instructions), the kind, the
  \<open>compressed\<close> flag to latch, and whether it guards a data access.
\<close>

definition insn_is_misaligned :: "u32 \<Rightarrow> bool" where
  "insn_is_misaligned pc = (pc AND 1 \<noteq> 0)"

definition rv_except_misaligned ::
  "misalign_kind \<Rightarrow> bool \<Rightarrow> u32 \<Rightarrow> 'h riscv \<Rightarrow> u64 \<Rightarrow> u32 \<Rightarrow> 'h outcome" where
  "rv_except_misaligned kind compress val rv cycle PC' =
     Return False (rv\<lparr>compressed := compress, csr_cycle := cycle, PC := PC',
                      misalign := Some (kind, val)\<rparr>)"

definition RV_EXC_MISALIGN_HANDLER_io ::
  "u32 \<Rightarrow> misalign_kind \<Rightarrow> bool \<Rightarrow> u32 \<Rightarrow> 'h riscv \<Rightarrow> u64 \<Rightarrow> u32 \<Rightarrow> 'h outcome option" where
  "RV_EXC_MISALIGN_HANDLER_io msk kind compress addr rv cycle PC' =
     (if addr AND msk \<noteq> 0
      then Some (rv_except_misaligned kind compress addr rv cycle PC')
      else None)"

definition RV_EXC_MISALIGN_HANDLER_insn ::
  "u32 \<Rightarrow> bool \<Rightarrow> 'h riscv \<Rightarrow> u64 \<Rightarrow> u32 \<Rightarrow> 'h outcome option" where
  "RV_EXC_MISALIGN_HANDLER_insn val compress rv cycle PC' =
     (if insn_is_misaligned PC'
      then Some (rv_except_misaligned insn compress val rv cycle PC')
      else None)"

text \<open>The end of the control transfers: \<^verbatim>\<open>rv->csr_cycle = cycle; rv->PC = PC; return true\<close>.\<close>

definition end_insn :: "'h riscv \<Rightarrow> u64 \<Rightarrow> u32 \<Rightarrow> 'h outcome" where
  "end_insn rv cycle PC' = Return True (rv\<lparr>csr_cycle := cycle, PC := PC'\<rparr>)"

text \<open>
  Modelled from the spec: \<^verbatim>\<open>HISTORY_SIZE\<close> is declared outside the source files;
  section 4.3 gives the table a small fixed power-of-two capacity with 8 as default.
\<close>

definition HISTORY_SIZE :: nat where
  "HISTORY_SIZE = 8"

text \<open>The scan \<^verbatim>\<open>for (int i = 0; i < HISTORY_SIZE; i++)\<close> of the history table.\<close>

function lookup_history :: "branch_history_table \<Rightarrow> u32 \<Rightarrow> nat \<Rightarrow> nat option" where
  "lookup_history t pc i =
     (if i < HISTORY_SIZE
      then (if bt_PC t ! i = pc then Some (bt_target t ! i) else lookup_history t pc (i + 1))
      else None)"
  by pat_completeness auto
termination
  by (relation "measure (\<lambda>(t, pc, i). HISTORY_SIZE - i)") auto

declare lookup_history.simps [simp del]

text \<open>
  \<^verbatim>\<open>LOOKUP_OR_UPDATE_BRANCH_HISTORY_TABLE()\<close>: a hit tail-calls the recorded target;
  a miss asks the block map and, when the block exists, overwrites the slot at the
  round-robin index and tail-calls the block's head; otherwise control falls through
  (\<open>None\<close>).
\<close>

definition LOOKUP_OR_UPDATE_BRANCH_HISTORY_TABLE ::
  "rv_insn \<Rightarrow> 'h riscv \<Rightarrow> u64 \<Rightarrow> u32 \<Rightarrow> 'h outcome option" where
  "LOOKUP_OR_UPDATE_BRANCH_HISTORY_TABLE ir rv cycle PC' =
     (let t = history rv (branch_table ir) in
      case lookup_history t PC' 0 of
        Some target \<Rightarrow> Some (Tail_call target rv cycle PC')
      | None \<Rightarrow>
         (case block_map rv PC' of
            Some ir_head \<Rightarrow>
              (let t' = t\<lparr>bt_PC := (bt_PC t)[bt_idx t := PC'],
                          bt_target := (bt_target t)[bt_idx t := ir_head],
                          bt_idx := (bt_idx t + 1) mod HISTORY_SIZE\<rparr>;
                   rv' = rv\<lparr>history := (history rv)(branch_table ir := t')\<rparr>
               in Some (Tail_call ir_head rv' cycle PC'))
          | None \<Rightarrow> None))"

subsection \<open>Internal, upper immediates and jumps\<close>

definition do_nop :: "rv_insn \<Rightarrow> 'h riscv \<Rightarrow> u64 \<Rightarrow> u32 \<Rightarrow> 'h outcome" where
  "do_nop = RVOP 4 (\<lambda>ir rv cycle PC'. Nextop (set_X rv rv_reg_zero 0))"

definition do_lui :: "rv_insn \<Rightarrow> 'h riscv \<Rightarrow> u64 \<Rightarrow> u32 \<Rightarrow> 'h outcome" where
  "do_lui = RVOP 4 (\<lambda>ir rv cycle PC'. Nextop (set_X rv (rd ir) (imm ir)))"

definition do_auipc :: "rv_insn \<Rightarrow> 'h riscv \<Rightarrow> u64 \<Rightarrow> u32 \<Rightarrow> 'h outcome" where
  "do_auipc = RVOP 4 (\<lambda>ir rv cycle PC'. Nextop (set_X rv (rd ir) (imm ir + PC')))"

text \<open>The tail shared by JAL, C.JAL and C.J once PC holds the target.\<close>

definition jump_taken :: "rv_insn \<Rightarrow> 'h riscv \<Rightarrow> u64 \<Rightarrow> u32 \<Rightarrow> 'h outcome" where
  "jump_taken ir rv cycle PC' =
     (case branch_taken ir of
        Some taken \<Rightarrow> Tail_call taken (rv\<lparr>last_pc := PC'\<rparr>) cycle PC'
      | None \<Rightarrow> end_insn rv cycle PC')"

definition do_jal :: "rv_insn \<Rightarrow> 'h riscv \<Rightarrow> u64 \<Rightarrow> u32 \<Rightarrow> 'h outcome" where
  "do_jal = RVOP 4 (\<lambda>ir rv cycle PC'.
     let pc = PC';
         PC' = PC' + imm ir;
         rv = (if rd ir \<noteq> 0 then set_X rv (rd ir) (pc + 4) else rv)
     in case RV_EXC_MISALIGN_HANDLER_insn pc False rv cycle PC' of
          Some out \<Rightarrow> Done out
        | None \<Rightarrow> Done (jump_taken ir rv cycle PC'))"

text \<open>The tail shared by JALR, C.JR and C.JALR once PC holds the target.\<close>

definition indirect_jump :: "rv_insn \<Rightarrow> 'h riscv \<Rightarrow> u64 \<Rightarrow> u32 \<Rightarrow> 'h outcome" where
  "indirect_jump ir rv cycle PC' =
     (case LOOKUP_OR_UPDATE_BRANCH_HISTORY_TABLE ir rv cycle PC' of
        Some out \<Rightarrow> out
      | None \<Rightarrow> end_insn rv cycle PC')"

definition do_jalr :: "rv_insn \<Rightarrow> 'h riscv \<Rightarrow> u64 \<Rightarrow> u32 \<Rightarrow> 'h outcome" where
  "do_jalr = RVOP 4 (\<lambda>ir rv cycle PC'.
     let pc = PC';
         PC' = (X rv (rs1 ir) + imm ir) AND NOT 1;
         rv = (if rd ir \<noteq> 0 then set_X rv (rd ir) (pc + 4) else rv)
     in case RV_EXC_MISALIGN_HANDLER_insn pc False rv cycle PC' of
          Some out \<Rightarrow> Done out
        | None \<Rightarrow> Done (indirect_jump ir rv cycle PC'))"

subsection \<open>Conditional branches\<close>

text \<open>
  \<^verbatim>\<open>BRANCH_FUNC(type, cond)\<close>. The macro's \<open>cond\<close> is the comparison under which the
  branch is not taken; it is passed here already applied to the operand type.
\<close>

definition BRANCH_FUNC ::
  "(u32 \<Rightarrow> u32 \<Rightarrow> bool) \<Rightarrow> rv_insn \<Rightarrow> 'h riscv \<Rightarrow> u64 \<Rightarrow> u32 \<Rightarrow> 'h flow" where
  "BRANCH_FUNC cond ir rv cycle PC' =
     (let pc = PC' in
      if cond (X rv (rs1 ir)) (X rv (rs2 ir)) then
        (let rv = rv\<lparr>is_branch_taken := False\<rparr> in
         case branch_untaken ir of
           None \<Rightarrow> Nextop rv
         | Some untaken \<Rightarrow>
             (let PC' = PC' + 4;
                  rv = rv\<lparr>last_pc := PC'\<rparr>
              in Done (Tail_call untaken rv cycle PC')))
      else
        (let rv = rv\<lparr>is_branch_taken := True\<rparr>;
             PC' = PC' + imm ir
         in case RV_EXC_MISALIGN_HANDLER_insn pc False rv cycle PC' of
              Some out \<Rightarrow> Done out
            | None \<Rightarrow>
               (case branch_taken ir of
                  Some taken \<Rightarrow> Done (Tail_call taken (rv\<lparr>last_pc := PC'\<rparr>) cycle PC')
                | None \<Rightarrow> Done (end_insn rv cycle PC'))))"

definition do_beq :: "rv_insn \<Rightarrow> 'h riscv \<Rightarrow> u64 \<Rightarrow> u32 \<Rightarrow> 'h outcome" where
  "do_beq = RVOP 4 (BRANCH_FUNC (\<lambda>a b. a \<noteq> b))"

definition do_bne :: "rv_insn \<Rightarrow> 'h riscv \<Rightarrow> u64 \<Rightarrow> u32 \<Rightarrow> 'h outcome" where
  "do_bne = RVOP 4 (BRANCH_FUNC (\<lambda>a b. a = b))"

definition do_blt :: "rv_insn \<Rightarrow> 'h riscv \<Rightarrow> u64 \<Rightarrow> u32 \<Rightarrow> 'h outcome" where
  "do_blt = RVOP 4 (BRANCH_FUNC (\<lambda>a b. sint a \<ge> sint b))"

definition do_bge :: "rv_insn \<Rightarrow> 'h riscv \<Rightarrow> u64 \<Rightarrow> u32 \<Rightarrow> 'h outcome" where
  "do_bge = RVOP 4 (BRANCH_FUNC (\<lambda>a b. sint a < sint b))"

definition do_bltu :: "rv_insn \<Rightarrow> 'h riscv \<Rightarrow> u64 \<Rightarrow> u32 \<Rightarrow> 'h outcome" where
  "do_bltu = RVOP 4 (BRANCH_FUNC (\<lambda>a b. uint a \<ge> uint b))"

definition do_bgeu :: "rv_insn \<Rightarrow> 'h riscv \<Rightarrow> u64 \<Rightarrow> u32 \<Rightarrow> 'h outcome" where
  "do_bgeu = RVOP 4 (BRANCH_FUNC (\<lambda>a b. uint a < uint b))"

subsection \<open>Loads and stores\<close>

text \<open>Calling a host callback: the call is logged and, for a write, the host moves on.\<close>

definition call_mem_read_b :: "'h riscv \<Rightarrow> u32 \<Rightarrow> u8 \<times> 'h riscv" where
  "call_mem_read_b rv addr =
     (mem_read_b (io rv) (host rv) addr, rv\<lparr>io_log := io_log rv @ [Call_mem_read_b addr]\<rparr>)"

definition call_mem_read_s :: "'h riscv \<Rightarrow> u32 \<Rightarrow> u16 \<times> 'h riscv" where
  "call_mem_read_s rv addr =
     (mem_read_s (io rv) (host rv) addr, rv\<lparr>io_log := io_log rv @ [Call_mem_read_s addr]\<rparr>)"

definition call_mem_read_w :: "'h riscv \<Rightarrow> u32 \<Rightarrow> u32 \<times> 'h riscv" where
  "call_mem_read_w rv addr =
     (mem_read_w (io rv) (host rv) addr, rv\<lparr>io_log := io_log rv @ [Call_mem_read_w addr]\<rparr>)"

definition call_mem_write_b :: "'h riscv \<Rightarrow> u32 \<Rightarrow> u8 \<Rightarrow> 'h riscv" where
  "call_mem_write_b rv addr v =
     rv\<lparr>host := mem_write_b (io rv) (host rv) addr v,
        io_log := io_log rv @ [Call_mem_write_b addr v]\<rparr>"

definition call_mem_write_s :: "'h riscv \<Rightarrow> u32 \<Rightarrow> u16 \<Rightarrow> 'h riscv" where
  "call_mem_write_s rv addr v =
     rv\<lparr>host := mem_write_s (io rv) (host rv) addr v,
        io_log := io_log rv @ [Call_mem_write_s addr v]\<rparr>"

definition call_mem_write_w :: "'h riscv \<Rightarrow> u32 \<Rightarrow> u32 \<Rightarrow> 'h riscv" where
  "call_mem_write_w rv addr v =
     rv\<lparr>host := mem_write_w (io rv) (host rv) addr v,
        io_log := io_log rv @ [Call_mem_write_w addr v]\<rparr>"

text \<open>
  \<^verbatim>\<open>sign_extend_b\<close> and \<^verbatim>\<open>sign_extend_h\<close> are helpers declared outside the source
  files; they widen a byte or halfword to 32 bits by its sign bit.
\<close>

definition sign_extend_b :: "u8 \<Rightarrow> u32" where
  "sign_extend_b x = scast x"

definition sign_extend_h :: "u16 \<Rightarrow> u32" where
  "sign_extend_h x = scast x"

definition do_lb :: "rv_insn \<Rightarrow> 'h riscv \<Rightarrow> u64 \<Rightarrow> u32 \<Rightarrow> 'h outcome" where
  "do_lb = RVOP 4 (\<lambda>ir rv cycle PC'.
     let (v, rv) = call_mem_read_b rv (X rv (rs1 ir) + imm ir)
     in Nextop (set_X rv (rd ir) (sign_extend_b v)))"

definition do_lh :: "rv_insn \<Rightarrow> 'h riscv \<Rightarrow> u64 \<Rightarrow> u32 \<Rightarrow> 'h outcome" where
  "do_lh = RVOP 4 (\<lambda>ir rv cycle PC'.
     let addr = X rv (rs1 ir) + imm ir
     in case RV_EXC_MISALIGN_HANDLER_io 1 load False addr rv cycle PC' of
          Some out \<Rightarrow> Done out
        | None \<Rightarrow>
            (let (v, rv) = call_mem_read_s rv addr
             in Nextop (set_X rv (rd ir) (sign_extend_h v))))"

definition do_lw :: "rv_insn \<Rightarrow> 'h riscv \<Rightarrow> u64 \<Rightarrow> u32 \<Rightarrow> 'h outcome" where
  "do_lw = RVOP 4 (\<lambda>ir rv cycle PC'.
     let addr = X rv (rs1 ir) + imm ir
     in case RV_EXC_MISALIGN_HANDLER_io 3 load False addr rv cycle PC' of
          Some out \<Rightarrow> Done out
        | None \<Rightarrow>
            (let (v, rv) = call_mem_read_w rv addr
             in Nextop (set_X rv (rd ir) v)))"

definition do_lbu :: "rv_insn \<Rightarrow> 'h riscv \<Rightarrow> u64 \<Rightarrow> u32 \<Rightarrow> 'h outcome" where
  "do_lbu = RVOP 4 (\<lambda>ir rv cycle PC'.
     let (v, rv) = call_mem_read_b rv (X rv (rs1 ir) + imm ir)
     in Nextop (set_X rv (rd ir) (ucast v)))"

definition do_lhu :: "rv_insn \<Rightarrow> 'h riscv \<Rightarrow> u64 \<Rightarrow> u32 \<Rightarrow> 'h outcome" where
  "do_lhu = RVOP 4 (\<lambda>ir rv cycle PC'.
     let addr = X rv (rs1 ir) + imm ir
     in case RV_EXC_MISALIGN_HANDLER_io 1 load False addr rv cycle PC' of
          Some out \<Rightarrow> Done out
        | None \<Rightarrow>
            (let (v, rv) = call_mem_read_s rv addr
             in Nextop (set_X rv (rd ir) (ucast v))))"

definition do_sb :: "rv_insn \<Rightarrow> 'h riscv \<Rightarrow> u64 \<Rightarrow> u32 \<Rightarrow> 'h outcome" where
  "do_sb = RVOP 4 (\<lambda>ir rv cycle PC'.
     Nextop (call_mem_write_b rv (X rv (rs1 ir) + imm ir) (ucast (X rv (rs2 ir)))))"

definition do_sh :: "rv_insn \<Rightarrow> 'h riscv \<Rightarrow> u64 \<Rightarrow> u32 \<Rightarrow> 'h outcome" where
  "do_sh = RVOP 4 (\<lambda>ir rv cycle PC'.
     let addr = X rv (rs1 ir) + imm ir
     in case RV_EXC_MISALIGN_HANDLER_io 1 store False addr rv cycle PC' of
          Some out \<Rightarrow> Done out
        | None \<Rightarrow> Nextop (call_mem_write_s rv addr (ucast (X rv (rs2 ir)))))"

definition do_sw :: "rv_insn \<Rightarrow> 'h riscv \<Rightarrow> u64 \<Rightarrow> u32 \<Rightarrow> 'h outcome" where
  "do_sw = RVOP 4 (\<lambda>ir rv cycle PC'.
     let addr = X rv (rs1 ir) + imm ir
     in case RV_EXC_MISALIGN_HANDLER_io 3 store False addr rv cycle PC' of
          Some out \<Rightarrow> Done out
        | None \<Rightarrow> Nextop (call_mem_write_w rv addr (X rv (rs2 ir))))"

subsection \<open>Immediate arithmetic and shifts\<close>

definition do_addi :: "rv_insn \<Rightarrow> 'h riscv \<Rightarrow> u64 \<Rightarrow> u32 \<Rightarrow> 'h outcome" where
  "do_addi = RVOP 4 (\<lambda>ir rv cycle PC'.
     Nextop (set_X rv (rd ir) (X rv (rs1 ir) + imm ir)))"

text \<open>
  \<^verbatim>\<open>shift_func\<close>. The right shift of a negative \<^verbatim>\<open>int32_t\<close> is the arithmetic shift
  (what the supported compilers do), \<open>signed_drop_bit\<close>. The \<^verbatim>\<open>default\<close> case is
  \<^verbatim>\<open>__UNREACHABLE\<close>: \<open>None\<close>.
\<close>

definition shift_func :: "'h riscv \<Rightarrow> rv_insn \<Rightarrow> 'h riscv option" where
  "shift_func rv ir =
     (case opcode ir of
        rv_insn_slli \<Rightarrow>
          Some (set_X rv (rd ir) (push_bit (unat (imm ir AND 0x1f)) (X rv (rs1 ir))))
      | rv_insn_srli \<Rightarrow>
          Some (set_X rv (rd ir) (drop_bit (unat (imm ir AND 0x1f)) (X rv (rs1 ir))))
      | rv_insn_srai \<Rightarrow>
          Some (set_X rv (rd ir) (signed_drop_bit (unat (imm ir AND 0x1f)) (X rv (rs1 ir))))
      | _ \<Rightarrow> None)"

definition shift_code :: "rv_insn \<Rightarrow> 'h riscv \<Rightarrow> u64 \<Rightarrow> u32 \<Rightarrow> 'h flow" where
  "shift_code ir rv cycle PC' =
     (case shift_func rv ir of Some rv' \<Rightarrow> Nextop rv' | None \<Rightarrow> Done Unreachable)"

definition do_slli :: "rv_insn \<Rightarrow> 'h riscv \<Rightarrow> u64 \<Rightarrow> u32 \<Rightarrow> 'h outcome" where
  "do_slli = RVOP 4 shift_code"

definition do_srli :: "rv_insn \<Rightarrow> 'h riscv \<Rightarrow> u64 \<Rightarrow> u32 \<Rightarrow> 'h outcome" where
  "do_srli = RVOP 4 shift_code"

definition do_srai :: "rv_insn \<Rightarrow> 'h riscv \<Rightarrow> u64 \<Rightarrow> u32 \<Rightarrow> 'h outcome" where
  "do_srai = RVOP 4 shift_code"

subsection \<open>RV32M\<close>

text \<open>
  MULH: both operands go through \<^verbatim>\<open>int32_t\<close> into \<^verbatim>\<open>int64_t\<close> (sign extension,
  \<open>scast\<close>); the product is converted to \<^verbatim>\<open>uint64_t\<close>, shifted right by 32 and stored
  into the 32-bit register (\<open>ucast\<close> keeps the low 32 bits).
\<close>

definition do_mulh :: "rv_insn \<Rightarrow> 'h riscv \<Rightarrow> u64 \<Rightarrow> u32 \<Rightarrow> 'h outcome" where
  "do_mulh = RVOP 4 (\<lambda>ir rv cycle PC'.
     let multiplicand = (scast (X rv (rs1 ir)) :: u64);
         multiplier = (scast (X rv (rs2 ir)) :: u64)
     in Nextop (set_X rv (rd ir) (ucast (drop_bit 32 (multiplicand * multiplier)))))"

text \<open>
  MULHSU: \<^verbatim>\<open>int64_t * uint64_t\<close> is computed in \<^verbatim>\<open>uint64_t\<close>, modulo \<open>2 ^ 64\<close>.
\<close>

definition do_mulhsu :: "rv_insn \<Rightarrow> 'h riscv \<Rightarrow> u64 \<Rightarrow> u32 \<Rightarrow> 'h outcome" where
  "do_mulhsu = RVOP 4 (\<lambda>ir rv cycle PC'.
     let multiplicand = (scast (X rv (rs1 ir)) :: u64);
         umultiplier = (ucast (X rv (rs2 ir)) :: u64)
     in Nextop (set_X rv (rd ir) (ucast (drop_bit 32 (multiplicand * umultiplier)))))"

definition do_mulhu :: "rv_insn \<Rightarrow> 'h riscv \<Rightarrow> u64 \<Rightarrow> u32 \<Rightarrow> 'h outcome" where
  "do_mulhu = RVOP 4 (\<lambda>ir rv cycle PC'.
     Nextop (set_X rv (rd ir)
       (ucast (drop_bit 32 ((ucast (X rv (rs1 ir)) :: u64) * (ucast (X rv (rs2 ir)) :: u64))))))"

text \<open>
  DIV and REM: \<open>dividend\<close> and \<open>divisor\<close> are the \<^verbatim>\<open>int32_t\<close> readings (\<open>sint\<close>) of the
  registers. C's \<^verbatim>\<open>/\<close> and \<^verbatim>\<open>%\<close> on \<^verbatim>\<open>int32_t\<close> truncate towards zero: on \<open>int\<close>
  these are \<open>sdiv\<close> and \<open>smod\<close>; the result is converted back to \<^verbatim>\<open>uint32_t\<close>.
\<close>

definition do_div :: "rv_insn \<Rightarrow> 'h riscv \<Rightarrow> u64 \<Rightarrow> u32 \<Rightarrow> 'h outcome" where
  "do_div = RVOP 4 (\<lambda>ir rv cycle PC'.
     let dividend = sint (X rv (rs1 ir));
         divisor = sint (X rv (rs2 ir))
     in Nextop (set_X rv (rd ir)
          (if divisor = 0 then NOT 0
           else if divisor = -1 \<and> X rv (rs1 ir) = 0x80000000 then X rv (rs1 ir)
           else word_of_int (dividend sdiv divisor))))"

definition do_divu :: "rv_insn \<Rightarrow> 'h riscv \<Rightarrow> u64 \<Rightarrow> u32 \<Rightarrow> 'h outcome" where
  "do_divu = RVOP 4 (\<lambda>ir rv cycle PC'.
     let udividend = X rv (rs1 ir);
         udivisor = X rv (rs2 ir)
     in Nextop (set_X rv (rd ir)
          (if udivisor = 0 then NOT 0 else udividend div udivisor)))"

definition do_rem :: "rv_insn \<Rightarrow> 'h riscv \<Rightarrow> u64 \<Rightarrow> u32 \<Rightarrow> 'h outcome" where
  "do_rem = RVOP 4 (\<lambda>ir rv cycle PC'.
     let dividend = sint (X rv (rs1 ir));
         divisor = sint (X rv (rs2 ir))
     in Nextop (set_X rv (rd ir)
          (if divisor = 0 then word_of_int dividend
           else if divisor = -1 \<and> X rv (rs1 ir) = 0x80000000 then 0
           else word_of_int (dividend smod divisor))))"

definition do_remu :: "rv_insn \<Rightarrow> 'h riscv \<Rightarrow> u64 \<Rightarrow> u32 \<Rightarrow> 'h outcome" where
  "do_remu = RVOP 4 (\<lambda>ir rv cycle PC'.
     let udividend = X rv (rs1 ir);
         udivisor = X rv (rs2 ir)
     in Nextop (set_X rv (rd ir)
          (if udivisor = 0 then udividend else udividend mod udivisor)))"

subsection \<open>RV32C\<close>

definition do_clw :: "rv_insn \<Rightarrow> 'h riscv \<Rightarrow> u64 \<Rightarrow> u32 \<Rightarrow> 'h outcome" where
  "do_clw = RVOP 2 (\<lambda>ir rv cycle PC'.
     let addr = X rv (rs1 ir) + imm ir
     in case RV_EXC_MISALIGN_HANDLER_io 3 load True addr rv cycle PC' of
          Some out \<Rightarrow> Done out
        | None \<Rightarrow>
            (let (v, rv) = call_mem_read_w rv addr
             in Nextop (set_X rv (rd ir) v)))"

definition do_csw :: "rv_insn \<Rightarrow> 'h riscv \<Rightarrow> u64 \<Rightarrow> u32 \<Rightarrow> 'h outcome" where
  "do_csw = RVOP 2 (\<lambda>ir rv cycle PC'.
     let addr = X rv (rs1 ir) + imm ir
     in case RV_EXC_MISALIGN_HANDLER_io 3 store True addr rv cycle PC' of
          Some out \<Rightarrow> Done out
        | None \<Rightarrow> Nextop (call_mem_write_w rv addr (X rv (rs2 ir))))"

definition do_cjal :: "rv_insn \<Rightarrow> 'h riscv \<Rightarrow> u64 \<Rightarrow> u32 \<Rightarrow> 'h outcome" where
  "do_cjal = RVOP 2 (\<lambda>ir rv cycle PC'.
     let rv = set_X rv rv_reg_ra (PC' + 2);
         PC' = PC' + imm ir
     in case RV_EXC_MISALIGN_HANDLER_insn PC' True rv cycle PC' of
          Some out \<Rightarrow> Done out
        | None \<Rightarrow> Done (jump_taken ir rv cycle PC'))"

definition do_cli :: "rv_insn \<Rightarrow> 'h riscv \<Rightarrow> u64 \<Rightarrow> u32 \<Rightarrow> 'h outcome" where
  "do_cli = RVOP 2 (\<lambda>ir rv cycle PC'. Nextop (set_X rv (rd ir) (imm ir)))"

text \<open>
  C.SRLI and C.SRAI shift by \<^verbatim>\<open>ir->shamt\<close>, which the decoder keeps below 32 (in C a
  shift of a 32-bit value by 32 or more is undefined).
\<close>

definition do_csrli :: "rv_insn \<Rightarrow> 'h riscv \<Rightarrow> u64 \<Rightarrow> u32 \<Rightarrow> 'h outcome" where
  "do_csrli = RVOP 2 (\<lambda>ir rv cycle PC'.
     Nextop (set_X rv (rs1 ir) (drop_bit (shamt ir) (X rv (rs1 ir)))))"

text \<open>
  The loop \<^verbatim>\<open>for (unsigned int i = 0; i < ir->shamt; ++i) rv->X[ir->rs1] |= mask >> i\<close>
  of C.SRAI, on the value of the register.
\<close>

function csrai_loop :: "u32 \<Rightarrow> nat \<Rightarrow> nat \<Rightarrow> u32 \<Rightarrow> u32" where
  "csrai_loop msk sh i x =
     (if i < sh then csrai_loop msk sh (i + 1) (x OR drop_bit i msk) else x)"
  by pat_completeness auto
termination
  by (relation "measure (\<lambda>(msk, sh, i, x). sh - i)") auto

declare csrai_loop.simps [simp del]

definition do_csrai :: "rv_insn \<Rightarrow> 'h riscv \<Rightarrow> u64 \<Rightarrow> u32 \<Rightarrow> 'h outcome" where
  "do_csrai = RVOP 2 (\<lambda>ir rv cycle PC'.
     let msk = 0x80000000 AND X rv (rs1 ir);
         rv = set_X rv (rs1 ir) (drop_bit (shamt ir) (X rv (rs1 ir)))
     in Nextop (set_X rv (rs1 ir) (csrai_loop msk (shamt ir) 0 (X rv (rs1 ir)))))"

definition do_cj :: "rv_insn \<Rightarrow> 'h riscv \<Rightarrow> u64 \<Rightarrow> u32 \<Rightarrow> 'h outcome" where
  "do_cj = RVOP 2 (\<lambda>ir rv cycle PC'.
     let PC' = PC' + imm ir
     in case RV_EXC_MISALIGN_HANDLER_insn PC' True rv cycle PC' of
          Some out \<Rightarrow> Done out
        | None \<Rightarrow> Done (jump_taken ir rv cycle PC'))"

definition do_clwsp :: "rv_insn \<Rightarrow> 'h riscv \<Rightarrow> u64 \<Rightarrow> u32 \<Rightarrow> 'h outcome" where
  "do_clwsp = RVOP 2 (\<lambda>ir rv cycle PC'.
     let addr = X rv rv_reg_sp + imm ir
     in case RV_EXC_MISALIGN_HANDLER_io 3 load True addr rv cycle PC' of
          Some out \<Rightarrow> Done out
        | None \<Rightarrow>
            (let (v, rv) = call_mem_read_w rv addr
             in Nextop (set_X rv (rd ir) v)))"

definition do_cjr :: "rv_insn \<Rightarrow> 'h riscv \<Rightarrow> u64 \<Rightarrow> u32 \<Rightarrow> 'h outcome" where
  "do_cjr = RVOP 2 (\<lambda>ir rv cycle PC'.
     let PC' = X rv (rs1 ir)
     in Done (indirect_jump ir rv cycle PC'))"

definition do_cjalr :: "rv_insn \<Rightarrow> 'h riscv \<Rightarrow> u64 \<Rightarrow> u32 \<Rightarrow> 'h outcome" where
  "do_cjalr = RVOP 2 (\<lambda>ir rv cycle PC'.
     let jump_to = X rv (rs1 ir);
         rv = set_X rv rv_reg_ra (PC' + 2);
         PC' = jump_to
     in case RV_EXC_MISALIGN_HANDLER_insn PC' True rv cycle PC' of
          Some out \<Rightarrow> Done out
        | None \<Rightarrow> Done (indirect_jump ir rv cycle PC'))"

definition do_cswsp :: "rv_insn \<Rightarrow> 'h riscv \<Rightarrow> u64 \<Rightarrow> u32 \<Rightarrow> 'h outcome" where
  "do_cswsp = RVOP 2 (\<lambda>ir rv cycle PC'.
     let addr = X rv rv_reg_sp + imm ir
     in case RV_EXC_MISALIGN_HANDLER_io 3 store True addr rv cycle PC' of
          Some out \<Rightarrow> Done out
        | None \<Rightarrow> Nextop (call_mem_write_w rv addr (X rv (rs2 ir))))"

subsection \<open>RV32A and RV32F memory accesses\<close>

text \<open>
  LR.W and SC.W address memory by \<^verbatim>\<open>rv->X[ir->rs1]\<close> and call the word callbacks
  directly; no reservation is kept, and SC.W always reports success.
\<close>

definition do_lrw :: "rv_insn \<Rightarrow> 'h riscv \<Rightarrow> u64 \<Rightarrow> u32 \<Rightarrow> 'h outcome" where
  "do_lrw = RVOP 4 (\<lambda>ir rv cycle PC'.
     let (v, rv) = call_mem_read_w rv (X rv (rs1 ir))
     in Nextop (set_X rv (rd ir) v))"

definition do_scw :: "rv_insn \<Rightarrow> 'h riscv \<Rightarrow> u64 \<Rightarrow> u32 \<Rightarrow> 'h outcome" where
  "do_scw = RVOP 4 (\<lambda>ir rv cycle PC'.
     let rv = call_mem_write_w rv (X rv (rs1 ir)) (X rv (rs2 ir))
     in Nextop (set_X rv (rd ir) 0))"

text \<open>
  The AMOs read a word with \<^verbatim>\<open>rv->io.mem_read_w(ir->rs1)\<close> into \<^verbatim>\<open>rv->X[ir->rd]\<close> and
  write the result back with \<^verbatim>\<open>rv->io.mem_write_s(ir->rs1, res)\<close>: the address passed is
  the field \<^verbatim>\<open>ir->rs1\<close> itself, the operands are read after \<^verbatim>\<open>rv->X[ir->rd]\<close> has been
  written, and the result is narrowed to the halfword the callback takes. The sum of
  AMOADD.W is taken on \<^verbatim>\<open>int32_t\<close> (written here on the 32-bit patterns); the four
  minimum and maximum operations all compare the registers as \<^verbatim>\<open>uint32_t\<close>.
\<close>

definition do_amoswapw :: "rv_insn \<Rightarrow> 'h riscv \<Rightarrow> u64 \<Rightarrow> u32 \<Rightarrow> 'h outcome" where
  "do_amoswapw = RVOP 4 (\<lambda>ir rv cycle PC'.
     let (v, rv) = call_mem_read_w rv (of_nat (rs1 ir));
         rv = set_X rv (rd ir) v
     in Nextop (call_mem_write_s rv (of_nat (rs1 ir)) (ucast (X rv (rs2 ir)))))"

definition do_amoaddw :: "rv_insn \<Rightarrow> 'h riscv \<Rightarrow> u64 \<Rightarrow> u32 \<Rightarrow> 'h outcome" where
  "do_amoaddw = RVOP 4 (\<lambda>ir rv cycle PC'.
     let (v, rv) = call_mem_read_w rv (of_nat (rs1 ir));
         rv = set_X rv (rd ir) v;
         res = X rv (rd ir) + X rv (rs2 ir)
     in Nextop (call_mem_write_s rv (of_nat (rs1 ir)) (ucast res)))"

definition do_amoxorw :: "rv_insn \<Rightarrow> 'h riscv \<Rightarrow> u64 \<Rightarrow> u32 \<Rightarrow> 'h outcome" where
  "do_amoxorw = RVOP 4 (\<lambda>ir rv cycle PC'.
     let (v, rv) = call_mem_read_w rv (of_nat (rs1 ir));
         rv = set_X rv (rd ir) v;
         res = X rv (rd ir) XOR X rv (rs2 ir)
     in Nextop (call_mem_write_s rv (of_nat (rs1 ir)) (ucast res)))"

definition do_amoandw :: "rv_insn \<Rightarrow> 'h riscv \<Rightarrow> u64 \<Rightarrow> u32 \<Rightarrow> 'h outcome" where
  "do_amoandw = RVOP 4 (\<lambda>ir rv cycle PC'.
     let (v, rv) = call_mem_read_w rv (of_nat (rs1 ir));
         rv = set_X rv (rd ir) v;
         res = X rv (rd ir) AND X rv (rs2 ir)
     in Nextop (call_mem_write_s rv (of_nat (rs1 ir)) (ucast res)))"

definition do_amoorw :: "rv_insn \<Rightarrow> 'h riscv \<Rightarrow> u64 \<Rightarrow> u32 \<Rightarrow> 'h outcome" where
  "do_amoorw = RVOP 4 (\<lambda>ir rv cycle PC'.
     let (v, rv) = call_mem_read_w rv (of_nat (rs1 ir));
         rv = set_X rv (rd ir) v;
         res = X rv (rd ir) OR X rv (rs2 ir)
     in Nextop (call_mem_write_s rv (of_nat (rs1 ir)) (ucast res)))"

definition do_amominw :: "rv_insn \<Rightarrow> 'h riscv \<Rightarrow> u64 \<Rightarrow> u32 \<Rightarrow> 'h outcome" where
  "do_amominw = RVOP 4 (\<lambda>ir rv cycle PC'.
     let (v, rv) = call_mem_read_w rv (of_nat (rs1 ir));
         rv = set_X rv (rd ir) v;
         res = (if X rv (rd ir) < X rv (rs2 ir) then X rv (rd ir) else X rv (rs2 ir))
     in Nextop (call_mem_write_s rv (of_nat (rs1 ir)) (ucast res)))"

definition do_amomaxw :: "rv_insn \<Rightarrow> 'h riscv \<Rightarrow> u64 \<Rightarrow> u32 \<Rightarrow> 'h outcome" where
  "do_amomaxw = RVOP 4 (\<lambda>ir rv cycle PC'.
     let (v, rv) = call_mem_read_w rv (of_nat (rs1 ir));
         rv = set_X rv (rd ir) v;
         res = (if X rv (rd ir) > X rv (rs2 ir) then X rv (rd ir) else X rv (rs2 ir))
     in Nextop (call_mem_write_s rv (of_nat (rs1 ir)) (ucast res)))"

definition do_amominuw :: "rv_insn \<Rightarrow> 'h riscv \<Rightarrow> u64 \<Rightarrow> u32 \<Rightarrow> 'h outcome" where
  "do_amominuw = RVOP 4 (\<lambda>ir rv cycle PC'.
     let (v, rv) = call_mem_read_w rv (of_nat (rs1 ir));
         rv = set_X rv (rd ir) v;
         res = (if X rv (rd ir) < X rv (rs2 ir) then X rv (rd ir) else X rv (rs2 ir))
     in Nextop (call_mem_write_s rv (of_nat (rs1 ir)) (ucast res)))"

definition do_amomaxuw :: "rv_insn \<Rightarrow> 'h riscv \<Rightarrow> u64 \<Rightarrow> u32 \<Rightarrow> 'h outcome" where
  "do_amomaxuw = RVOP 4 (\<lambda>ir rv cycle PC'.
     let (v, rv) = call_mem_read_w rv (of_nat (rs1 ir));
         rv = set_X rv (rd ir) v;
         res = (if X rv (rd ir) > X rv (rs2 ir) then X rv (rd ir) else X rv (rs2 ir))
     in Nextop (call_mem_write_s rv (of_nat (rs1 ir)) (ucast res)))"

text \<open>FLW and FSW move a word between memory and the float register file.\<close>

definition do_flw :: "rv_insn \<Rightarrow> 'h riscv \<Rightarrow> u64 \<Rightarrow> u32 \<Rightarrow> 'h outcome" where
  "do_flw = RVOP 4 (\<lambda>ir rv cycle PC'.
     let (data, rv) = call_mem_read_w rv (X rv (rs1 ir) + imm ir)
     in Nextop (rv\<lparr>F := (F rv)(rd ir := data)\<rparr>))"

definition do_fsw :: "rv_insn \<Rightarrow> 'h riscv \<Rightarrow> u64 \<Rightarrow> u32 \<Rightarrow> 'h outcome" where
  "do_fsw = RVOP 4 (\<lambda>ir rv cycle PC'.
     let data = F rv (rs2 ir)
     in Nextop (call_mem_write_w rv (X rv (rs1 ir) + imm ir) data))"

subsection \<open>Dispatch\<close>

text \<open>
  Modelled from the spec: the block builder and the run loop are not among the source
  files. A decoded record carries a dispatch function pointer chosen by its opcode tag
  (section 3); \<open>impl\<close> is that choice. Section 8 states that interpreting a block by
  tail-chaining yields the same final machine state as interpreting each instruction on
  its own with the PC looked up each time; \<open>rv_step\<close> is that one-instruction
  interpretation over a map from guest PC to decoded record, and \<open>rv_run\<close> repeats it
  until the PC leaves the program (\<open>None\<close> when the fuel runs out first or control
  reaches \<^verbatim>\<open>__UNREACHABLE\<close>).
\<close>

definition impl :: "rv_insn \<Rightarrow> 'h riscv \<Rightarrow> u64 \<Rightarrow> u32 \<Rightarrow> 'h outcome" where
  "impl ir =
     (case opcode ir of
        rv_insn_nop \<Rightarrow> do_nop ir | rv_insn_lui \<Rightarrow> do_lui ir | rv_insn_auipc \<Rightarrow> do_auipc ir
      | rv_insn_jal \<Rightarrow> do_jal ir | rv_insn_jalr \<Rightarrow> do_jalr ir
      | rv_insn_beq \<Rightarrow> do_beq ir | rv_insn_bne \<Rightarrow> do_bne ir | rv_insn_blt \<Rightarrow> do_blt ir
      | rv_insn_bge \<Rightarrow> do_bge ir | rv_insn_bltu \<Rightarrow> do_bltu ir | rv_insn_bgeu \<Rightarrow> do_bgeu ir
      | rv_insn_lb \<Rightarrow> do_lb ir | rv_insn_lh \<Rightarrow> do_lh ir | rv_insn_lw \<Rightarrow> do_lw ir
      | rv_insn_lbu \<Rightarrow> do_lbu ir | rv_insn_lhu \<Rightarrow> do_lhu ir
      | rv_insn_sb \<Rightarrow> do_sb ir | rv_insn_sh \<Rightarrow> do_sh ir | rv_insn_sw \<Rightarrow> do_sw ir
      | rv_insn_addi \<Rightarrow> do_addi ir
      | rv_insn_slli \<Rightarrow> do_slli ir | rv_insn_srli \<Rightarrow> do_srli ir | rv_insn_srai \<Rightarrow> do_srai ir
      | rv_insn_mulh \<Rightarrow> do_mulh ir | rv_insn_mulhsu \<Rightarrow> do_mulhsu ir
      | rv_insn_mulhu \<Rightarrow> do_mulhu ir
      | rv_insn_div \<Rightarrow> do_div ir | rv_insn_divu \<Rightarrow> do_divu ir
      | rv_insn_rem \<Rightarrow> do_rem ir | rv_insn_remu \<Rightarrow> do_remu ir
      | rv_insn_clw \<Rightarrow> do_clw ir | rv_insn_csw \<Rightarrow> do_csw ir | rv_insn_cjal \<Rightarrow> do_cjal ir
      | rv_insn_cli \<Rightarrow> do_cli ir | rv_insn_csrli \<Rightarrow> do_csrli ir
      | rv_insn_csrai \<Rightarrow> do_csrai ir | rv_insn_cj \<Rightarrow> do_cj ir
      | rv_insn_clwsp \<Rightarrow> do_clwsp ir | rv_insn_cjr \<Rightarrow> do_cjr ir
      | rv_insn_cjalr \<Rightarrow> do_cjalr ir | rv_insn_cswsp \<Rightarrow> do_cswsp ir
      | rv_insn_lrw \<Rightarrow> do_lrw ir | rv_insn_scw \<Rightarrow> do_scw ir
      | rv_insn_amoswapw \<Rightarrow> do_amoswapw ir | rv_insn_amoaddw \<Rightarrow> do_amoaddw ir
      | rv_insn_amoxorw \<Rightarrow> do_amoxorw ir | rv_insn_amoandw \<Rightarrow> do_amoandw ir
      | rv_insn_amoorw \<Rightarrow> do_amoorw ir | rv_insn_amominw \<Rightarrow> do_amominw ir
      | rv_insn_amomaxw \<Rightarrow> do_amomaxw ir | rv_insn_amominuw \<Rightarrow> do_amominuw ir
      | rv_insn_amomaxuw \<Rightarrow> do_amomaxuw ir
      | rv_insn_flw \<Rightarrow> do_flw ir | rv_insn_fsw \<Rightarrow> do_fsw ir)"

definition rv_step :: "(u32 \<Rightarrow> rv_insn option) \<Rightarrow> 'h riscv \<Rightarrow> 'h riscv option" where
  "rv_step prog rv =
     (case prog (PC rv) of
        None \<Rightarrow> None
      | Some ir \<Rightarrow>
         (case impl ir rv (csr_cycle rv) (PC rv) of
            Tail_call t rv' cycle pc \<Rightarrow> Some (rv'\<lparr>csr_cycle := cycle, PC := pc\<rparr>)
          | Return b rv' \<Rightarrow> Some rv'
          | Unreachable \<Rightarrow> None))"

fun rv_run :: "nat \<Rightarrow> (u32 \<Rightarrow> rv_insn option) \<Rightarrow> 'h riscv \<Rightarrow> 'h riscv option" where
  "rv_run 0 prog rv = None"
| "rv_run (Suc fuel) prog rv =
     (case prog (PC rv) of
        None \<Rightarrow> Some rv
      | Some ir \<Rightarrow>
         (case rv_step prog rv of
            None \<Rightarrow> None
          | Some rv' \<Rightarrow> rv_run fuel prog rv'))"

section \<open>Utilities (src/utils.c)\<close>

subsection \<open>The hashed set\<close>

text \<open>
  \<^verbatim>\<open>set_t\<close> holds \<^verbatim>\<open>table[SET_SIZE][SET_SLOTS_SIZE]\<close>; a row is a bucket whose used
  slots come first and whose first zero slot ends it. The type, \<^verbatim>\<open>SET_SLOTS_SIZE\<close>
  and the hash \<^verbatim>\<open>set_hash\<close> (made by \<^verbatim>\<open>HASH_FUNC_IMPL\<close>) are declared in the header,
  which is not among the source files: the slot count and the hash are parameters of the
  two operations. The counter \<^verbatim>\<open>count\<close> is a \<^verbatim>\<open>uint8_t\<close>; it is a natural number
  here, which is the same as long as \<^verbatim>\<open>SET_SLOTS_SIZE\<close> is at most 255.
\<close>

record set_t =
  table :: "nat \<Rightarrow> nat \<Rightarrow> u32"

text \<open>\<^verbatim>\<open>set_reset\<close> clears the table: \<^verbatim>\<open>memset(set, 0, sizeof(set_t))\<close>.\<close>

definition set_reset :: "set_t \<Rightarrow> set_t" where
  "set_reset st = st\<lparr>table := (\<lambda>index count. 0)\<rparr>"

text \<open>
  Both loops test \<^verbatim>\<open>set->table[index][count]\<close> before anything else. Once \<open>count\<close> has
  reached \<^verbatim>\<open>SET_SLOTS_SIZE\<close> that slot lies beyond the row: the read is outside the
  bucket, and in \<^verbatim>\<open>set_add\<close> the assertion \<^verbatim>\<open>count < SET_SLOTS_SIZE\<close> fails next
  whichever way the test goes. This is the fault \<open>Row_overrun\<close>.
\<close>

datatype set_fault = Row_overrun

text \<open>
  The loop of \<^verbatim>\<open>set_add\<close>: \<open>Inr None\<close> is \<^verbatim>\<open>return false\<close> from inside the loop,
  \<open>Inr (Some count)\<close> is leaving the loop at the first zero slot.
\<close>

function set_add_loop :: "nat \<Rightarrow> (nat \<Rightarrow> u32) \<Rightarrow> u32 \<Rightarrow> nat \<Rightarrow> set_fault + nat option" where
  "set_add_loop slots row key count =
     (if count < slots
      then (if row count \<noteq> 0
            then (if row count = key then Inr None
                  else set_add_loop slots row key (count + 1))
            else Inr (Some count))
      else Inl Row_overrun)"
  by pat_completeness auto
termination
  by (relation "measure (\<lambda>(slots, row, key, count). slots - count)") auto

declare set_add_loop.simps [simp del]

definition set_add ::
  "(u32 \<Rightarrow> nat) \<Rightarrow> nat \<Rightarrow> set_t \<Rightarrow> u32 \<Rightarrow> set_fault + (bool \<times> set_t)" where
  "set_add set_hash slots st key =
     (let index = set_hash key in
      case set_add_loop slots (table st index) key 0 of
        Inl f \<Rightarrow> Inl f
      | Inr None \<Rightarrow> Inr (False, st)
      | Inr (Some count) \<Rightarrow>
          Inr (True, st\<lparr>table := (table st)(index := (table st index)(count := key))\<rparr>))"

function set_has_loop :: "nat \<Rightarrow> (nat \<Rightarrow> u32) \<Rightarrow> u32 \<Rightarrow> nat \<Rightarrow> set_fault + bool" where
  "set_has_loop slots row key count =
     (if count < slots
      then (if row count \<noteq> 0
            then (if row count = key then Inr True
                  else set_has_loop slots row key (count + 1))
            else Inr False)
      else Inl Row_overrun)"
  by pat_completeness auto
termination
  by (relation "measure (\<lambda>(slots, row, key, count). slots - count)") auto

declare set_has_loop.simps [simp del]

definition set_has :: "(u32 \<Rightarrow> nat) \<Rightarrow> nat \<Rightarrow> set_t \<Rightarrow> u32 \<Rightarrow> set_fault + bool" where
  "set_has set_hash slots st key =
     (let index = set_hash key in set_has_loop slots (table st index) key 0)"

subsection \<open>Path sanitization\<close>

text \<open>
  A \<^verbatim>\<open>char *\<close> is the list of bytes it points to; the C string it denotes ends before
  the first NUL byte (or where the list ends). A buffer is \<open>terminated\<close> when it holds a
  NUL byte: only then does reading it as a string stay inside it. \<^verbatim>\<open>sanitize_path\<close>
  returns its buffer of \<open>n + 1\<close> bytes, or \<open>None\<close> for \<^verbatim>\<open>NULL\<close> when \<^verbatim>\<open>calloc\<close> fails;
  whether it fails is the parameter \<open>calloc_ok\<close>.
\<close>

definition NUL :: char where
  "NUL = CHR 0x00"

definition c_string :: "string \<Rightarrow> string" where
  "c_string p = takeWhile (\<lambda>c. c \<noteq> NUL) p"

definition terminated :: "string \<Rightarrow> bool" where
  "terminated buf = (NUL \<in> set buf)"

definition MAX_PATH_LEN :: nat where
  "MAX_PATH_LEN = 1024"

definition strnlen :: "string \<Rightarrow> nat \<Rightarrow> nat" where
  "strnlen p maxlen = min (length (c_string p)) maxlen"

definition memset :: "string \<Rightarrow> nat \<Rightarrow> char \<Rightarrow> nat \<Rightarrow> string" where
  "memset buf off c k = take off buf @ replicate k c @ drop (off + k) buf"

text \<open>The inner loop \<^verbatim>\<open>while (w > dotdot && ret[w] != '/') w--\<close>.\<close>

function backtrack :: "string \<Rightarrow> nat \<Rightarrow> nat \<Rightarrow> nat" where
  "backtrack ret dotdot w =
     (if w > dotdot \<and> ret ! w \<noteq> CHR ''/'' then backtrack ret dotdot (w - 1) else w)"
  by pat_completeness auto
termination
  by (relation "measure (\<lambda>(ret, dotdot, w). w)") auto

declare backtrack.simps [simp del]

text \<open>The copy loop \<^verbatim>\<open>for (; r < n && input[r] != '/'; r++) { ret[w] = input[r]; w++; }\<close>.\<close>

function copy_element :: "string \<Rightarrow> nat \<Rightarrow> nat \<Rightarrow> nat \<Rightarrow> string \<Rightarrow> nat \<times> nat \<times> string" where
  "copy_element input n r w ret =
     (if r < n \<and> input ! r \<noteq> CHR ''/''
      then copy_element input n (r + 1) (w + 1) (ret[w := input ! r])
      else (r, w, ret))"
  by pat_completeness auto
termination
  by (relation "measure (\<lambda>(input, n, r, w, ret). n - r)") auto

declare copy_element.simps [simp del]

lemma copy_element_r:
  "fst (copy_element input n r w ret) \<ge> r \<and>
   (r < n \<and> input ! r \<noteq> CHR ''/'' \<longrightarrow> fst (copy_element input n r w ret) > r)"
proof (induction input n r w ret rule: copy_element.induct)
  case (1 input n r w ret)
  show ?case
  proof (cases "r < n \<and> input ! r \<noteq> CHR ''/''")
    case True
    with 1 have "r + 1 \<le> fst (copy_element input n (r + 1) (w + 1) (ret[w := input ! r]))"
      by simp
    with True show ?thesis
      by (subst (1 2) copy_element.simps) simp
  next
    case False
    then show ?thesis
      by (subst (1 2) copy_element.simps) auto
  qed
qed

text \<open>
  The main loop \<^verbatim>\<open>while (r < n)\<close> with its four cases in the source's order; it
  returns the final \<open>w\<close> and the buffer.
\<close>

function path_loop ::
  "string \<Rightarrow> nat \<Rightarrow> bool \<Rightarrow> nat \<Rightarrow> nat \<Rightarrow> nat \<Rightarrow> string \<Rightarrow> nat \<times> string" where
  "path_loop input n is_root r w dotdot ret =
     (if r < n then
        (if input ! r = CHR ''/'' then
           path_loop input n is_root (r + 1) w dotdot ret
         else if input ! r = CHR ''.'' \<and> (r + 1 = n \<or> input ! (r + 1) = CHR ''/'') then
           path_loop input n is_root (r + 1) w dotdot ret
         else if input ! r = CHR ''.'' \<and> input ! (r + 1) = CHR ''.'' \<and>
                 (r + 2 = n \<or> input ! (r + 2) = CHR ''/'') then
           (if w > dotdot then
              path_loop input n is_root (r + 2) (backtrack ret dotdot (w - 1)) dotdot ret
            else if \<not> is_root then
              (let (w1, ret1) = (if w > 0 then (w + 1, ret[w := CHR ''/'']) else (w, ret));
                   ret2 = ret1[w1 := CHR ''.''];
                   ret3 = ret2[w1 + 1 := CHR ''.'']
               in path_loop input n is_root (r + 2) (w1 + 2) (w1 + 2) ret3)
            else path_loop input n is_root (r + 2) w dotdot ret)
         else
           (let (w1, ret1) =
                  (if (is_root \<and> w \<noteq> 1) \<or> (\<not> is_root \<and> w \<noteq> 0)
                   then (w + 1, ret[w := CHR ''/'']) else (w, ret));
                (r2, w2, ret2) = copy_element input n r w1 ret1
            in path_loop input n is_root r2 w2 dotdot ret2))
      else (w, ret))"
  by pat_completeness auto
termination
proof (relation "measure (\<lambda>(input, n, is_root, r, w, dotdot, ret). n - r)", goal_cases)
  case 1
  show ?case by simp
next
  case (2 input n is_root r w dotdot ret)
  then show ?case by simp
next
  case (3 input n is_root r w dotdot ret)
  then show ?case by simp
next
  case (4 input n is_root r w dotdot ret)
  then show ?case by auto
next
  case (5 input n is_root r w dotdot ret x xa y)
  then show ?case by auto
next
  case (6 input n is_root r w dotdot ret)
  then show ?case by auto
next
  case (7 input n is_root r w dotdot ret x w1 ret1 x2 r2 y w2 ret2)
  from 7 have "r < n" and "input ! r \<noteq> CHR ''/''"
    by simp_all
  then have "r < fst (copy_element input n r w1 ret1)"
    using copy_element_r [of r input n w1 ret1] by simp
  moreover from 7 have "fst (copy_element input n r w1 ret1) = r2"
    by (metis fst_conv)
  ultimately show ?case
    using \<open>r < n\<close> by simp
qed

declare path_loop.simps [simp del]

definition sanitize_path :: "bool \<Rightarrow> string \<Rightarrow> string option" where
  "sanitize_path calloc_ok input =
     (let n = strnlen input MAX_PATH_LEN in
      if \<not> calloc_ok then None
      else
        (let ret = replicate (n + 1) NUL in
         if n = 0 then Some (ret[0 := CHR ''.''])
         else
           (let is_root = (input ! 0 = CHR ''/'');
                (w, r, dotdot, ret) =
                   (if is_root then (1, 1, 1, ret[0 := CHR ''/'']) else (0, 0, 0, ret));
                (w, ret) = path_loop input n is_root r w dotdot ret;
                (w, ret) = (if w = 0 then (w + 1, ret[w := CHR ''.'']) else (w, ret))
            in Some (memset ret w NUL (n + 1 - w)))))"

subsection \<open>The path loop on lists\<close>

text \<open>
  For the proofs, the state of the main loop is read as two lists: the part of the
  input not yet processed (\<open>rest\<close>, the bytes from \<open>r\<close> up to \<open>n\<close>) and the part of the
  buffer written so far (\<open>out\<close>, the bytes below \<open>w\<close>). \<open>clean_loop\<close> is the loop on these
  lists, case by case as in the source; that \<open>path_loop\<close> computes the same is proved
  below. \<open>path_base\<close> is what the buffer holds when the loop starts, \<open>path_sep\<close> the
  slash a real element is preceded by, and \<open>clean_path\<close> the string the whole function
  computes from the bytes it reads.
\<close>

definition path_base :: "bool \<Rightarrow> string" where
  "path_base is_root = (if is_root then [CHR ''/''] else [])"

definition path_sep :: "bool \<Rightarrow> string \<Rightarrow> string" where
  "path_sep is_root out =
     (if (is_root \<and> length out \<noteq> 1) \<or> (\<not> is_root \<and> length out \<noteq> 0)
      then [CHR ''/''] else [])"

definition dotdot_sep :: "string \<Rightarrow> string" where
  "dotdot_sep out = (if length out > 0 then [CHR ''/''] else [])"

function clean_loop :: "bool \<Rightarrow> nat \<Rightarrow> string \<Rightarrow> string \<Rightarrow> string" where
  "clean_loop is_root dotdot out [] = out"
| "clean_loop is_root dotdot out (c # cs) =
     (if c = CHR ''/'' then clean_loop is_root dotdot out cs
      else if c = CHR ''.'' \<and> (cs = [] \<or> hd cs = CHR ''/'') then
        clean_loop is_root dotdot out cs
      else if c = CHR ''.'' \<and> hd cs = CHR ''.'' \<and> (tl cs = [] \<or> hd (tl cs) = CHR ''/'') then
        (if length out > dotdot then
           clean_loop is_root dotdot
             (take (backtrack out dotdot (length out - 1)) out) (tl cs)
         else if \<not> is_root then
           clean_loop is_root (length out + length (dotdot_sep out) + 2)
             (out @ dotdot_sep out @ [CHR ''.'', CHR ''.'']) (tl cs)
         else clean_loop is_root dotdot out (tl cs))
      else
        clean_loop is_root dotdot
          (out @ path_sep is_root out @ takeWhile (\<lambda>x. x \<noteq> CHR ''/'') (c # cs))
          (dropWhile (\<lambda>x. x \<noteq> CHR ''/'') (c # cs)))"
  by pat_completeness auto
termination
proof (relation "measure (\<lambda>(is_root, dotdot, out, rest). length rest)", goal_cases)
  case 1
  show ?case by simp
next
  case (2 is_root dotdot out c cs)
  then show ?case by simp
next
  case (3 is_root dotdot out c cs)
  then show ?case by simp
next
  case (4 is_root dotdot out c cs)
  then show ?case by simp
next
  case (5 is_root dotdot out c cs)
  then show ?case by simp
next
  case (6 is_root dotdot out c cs)
  then show ?case by simp
next
  case (7 is_root dotdot out c cs)
  have "length (dropWhile (\<lambda>x. x \<noteq> CHR ''/'') cs) \<le> length cs"
    by (rule length_dropWhile_le)
  with 7 show ?case by simp
qed

declare clean_loop.simps(2) [simp del]

definition clean_path :: "string \<Rightarrow> string" where
  "clean_path inp =
     (if inp = [] then [CHR ''.'']
      else
        (let is_root = (hd inp = CHR ''/'');
             out = clean_loop is_root (length (path_base is_root)) (path_base is_root)
                     (drop (length (path_base is_root)) inp)
         in if out = [] then [CHR ''.''] else out))"

text \<open>
  A real path element: not empty, without a slash, and neither \<^verbatim>\<open>.\<close> nor \<^verbatim>\<open>..\<close>.
\<close>

definition real_element :: "string \<Rightarrow> bool" where
  "real_element e =
     (e \<noteq> [] \<and> CHR ''/'' \<notin> set e \<and> e \<noteq> [CHR ''.''] \<and> e \<noteq> [CHR ''.'', CHR ''.''])"

text \<open>
  The buffer contents the loop can reach, with the value of \<open>dotdot\<close> that goes with
  them: the start, a \<^verbatim>\<open>..\<close> appended to a buffer that holds nothing else than \<^verbatim>\<open>..\<close>
  elements, and a real element appended.
\<close>

inductive canon :: "bool \<Rightarrow> nat \<Rightarrow> string \<Rightarrow> bool" for is_root :: bool where
  canon_base: "canon is_root (length (path_base is_root)) (path_base is_root)"
| canon_dotdot:
    "canon is_root dotdot out \<Longrightarrow> \<not> is_root \<Longrightarrow> length out = dotdot \<Longrightarrow>
     canon is_root (length out + length (dotdot_sep out) + 2)
       (out @ dotdot_sep out @ [CHR ''.'', CHR ''.''])"
| canon_element:
    "canon is_root dotdot out \<Longrightarrow> real_element e \<Longrightarrow>
     canon is_root dotdot (out @ path_sep is_root out @ e)"

subsection \<open>Path elements\<close>

text \<open>
  The elements of a path are the runs between its slashes; \<open>double_slash\<close> says that
  two slashes are adjacent somewhere (an empty element inside the path).
\<close>

fun elements :: "string \<Rightarrow> string list" where
  "elements [] = [[]]"
| "elements (c # cs) =
     (if c = CHR ''/'' then [] # elements cs
      else (case elements cs of e # es \<Rightarrow> (c # e) # es | [] \<Rightarrow> [[c]]))"

fun double_slash :: "string \<Rightarrow> bool" where
  "double_slash (a # b # cs) = ((a = CHR ''/'' \<and> b = CHR ''/'') \<or> double_slash (b # cs))"
| "double_slash [a] = False"
| "double_slash [] = False"

section \<open>Observations and example inputs\<close>

text \<open>The value of register \<open>r\<close> in the machine an outcome carries.\<close>

definition reg_after :: "'h outcome \<Rightarrow> nat \<Rightarrow> u32 option" where
  "reg_after out r = map_option (\<lambda>rv. X rv r) (machine_of out)"

text \<open>The whole register file in the machine an outcome carries.\<close>

definition regs_after :: "'h outcome \<Rightarrow> (nat \<Rightarrow> u32) option" where
  "regs_after out = map_option X (machine_of out)"

text \<open>Whether the interpreter recorded the branch as taken.\<close>

definition taken_after :: "'h outcome \<Rightarrow> bool option" where
  "taken_after out = map_option is_branch_taken (machine_of out)"

text \<open>The callback invocations and the host state in the machine an outcome carries.\<close>

definition io_after :: "'h outcome \<Rightarrow> (io_call list \<times> 'h) option" where
  "io_after out = map_option (\<lambda>rv. (io_log rv, host rv)) (machine_of out)"

text \<open>The misalignment latch in the machine an outcome carries.\<close>

definition misalign_after :: "'h outcome \<Rightarrow> (misalign_kind \<times> u32) option option" where
  "misalign_after out = map_option misalign (machine_of out)"

text \<open>
  An outcome that is a misalignment exception of the given kind and reported value,
  raised from machine \<open>rv\<close> at \<open>pc\<close> with nothing else done: no callback was invoked, the
  host's state and the register file are as before, and the PC written back is \<open>pc\<close>.
\<close>

definition raises_without_effect ::
  "'h outcome \<Rightarrow> 'h riscv \<Rightarrow> u32 \<Rightarrow> misalign_kind \<Rightarrow> u32 \<Rightarrow> bool" where
  "raises_without_effect out rv pc kind val =
     (case out of
        Return b rv' \<Rightarrow>
          \<not> b \<and> misalign rv' = Some (kind, val) \<and> io_log rv' = io_log rv \<and>
          host rv' = host rv \<and> X rv' = X rv \<and> PC rv' = pc
      | Tail_call t rv' cycle pc' \<Rightarrow> False
      | Unreachable \<Rightarrow> False)"

text \<open>An outcome that raised a misalignment exception of the given kind and value.\<close>

definition raises :: "'h outcome \<Rightarrow> misalign_kind \<Rightarrow> u32 \<Rightarrow> bool" where
  "raises out kind val =
     (case out of
        Return b rv' \<Rightarrow> \<not> b \<and> misalign rv' = Some (kind, val)
      | Tail_call t rv' cycle pc' \<Rightarrow> False
      | Unreachable \<Rightarrow> False)"

text \<open>
  A host without state whose reads answer with fixed values, a machine after reset on
  that host, and a decoded record with no successor linked.
\<close>

definition io_example :: "unit riscv_io" where
  "io_example =
     \<lparr>mem_read_b = (\<lambda>h a. 0xEF), mem_read_s = (\<lambda>h a. 0xBEEF),
      mem_read_w = (\<lambda>h a. 0xDEADBEEF),
      mem_write_b = (\<lambda>h a v. h), mem_write_s = (\<lambda>h a v. h), mem_write_w = (\<lambda>h a v. h)\<rparr>"

definition rv_reset :: "unit riscv" where
  "rv_reset =
     \<lparr>X = (\<lambda>r. 0), F = (\<lambda>r. 0), PC = 0, csr_cycle = 0, compressed = False, misalign = None,
      io = io_example, host = (), io_log = [], block_map = (\<lambda>pc. None),
      history = (\<lambda>h. \<lparr>bt_PC = replicate 8 0, bt_target = replicate 8 0, bt_idx = 0\<rparr>),
      is_branch_taken = False, last_pc = 0\<rparr>"

text \<open>The machine after reset with one register set.\<close>

definition rv_with :: "nat \<Rightarrow> u32 \<Rightarrow> unit riscv" where
  "rv_with r v = rv_reset\<lparr>X := (X rv_reset)(r := v)\<rparr>"

definition rv_with2 :: "nat \<Rightarrow> u32 \<Rightarrow> nat \<Rightarrow> u32 \<Rightarrow> unit riscv" where
  "rv_with2 r v r' v' = rv_reset\<lparr>X := (X rv_reset)(r := v, r' := v')\<rparr>"

definition decoded :: "rv_opcode \<Rightarrow> nat \<Rightarrow> nat \<Rightarrow> nat \<Rightarrow> u32 \<Rightarrow> rv_insn" where
  "decoded opc d s1 s2 i =
     \<lparr>opcode = opc, rd = d, rs1 = s1, rs2 = s2, imm = i, shamt = 0, next = None,
      branch_taken = None, branch_untaken = None, branch_table = 0\<rparr>"

text \<open>
  The five-instruction scenario: \<^verbatim>\<open>ADDI x1, x0, 5; ADDI x2, x0, 3; BLT x2, x1, +8;
  ADDI x3, x0, 99; ADDI x4, x0, 7\<close>, placed from address 0.
\<close>

definition blt_scenario :: "u32 \<Rightarrow> rv_insn option" where
  "blt_scenario pc =
     (if pc = 0 then Some (decoded rv_insn_addi 1 0 0 5)
      else if pc = 4 then Some (decoded rv_insn_addi 2 0 0 3)
      else if pc = 8 then Some (decoded rv_insn_blt 0 2 1 8)
      else if pc = 12 then Some (decoded rv_insn_addi 3 0 0 99)
      else if pc = 16 then Some (decoded rv_insn_addi 4 0 0 7)
      else None)"

text \<open>A hash into 1024 buckets and a set after reset, for concrete runs of the set.\<close>

definition example_hash :: "u32 \<Rightarrow> nat" where
  "example_hash key = unat key mod 1024"

definition empty_set :: set_t where
  "empty_set = set_reset \<lparr>table = (\<lambda>index count. 1)\<rparr>"

text \<open>
  A load into \<^verbatim>\<open>x0\<close> followed by a read of \<^verbatim>\<open>x0\<close>: \<^verbatim>\<open>LW x0, 0(x1); ADDI x2, x0, 0\<close>,
  placed from address 0.
\<close>

definition x0_scenario :: "u32 \<Rightarrow> rv_insn option" where
  "x0_scenario pc =
     (if pc = 0 then Some (decoded rv_insn_lw 0 1 0 0)
      else if pc = 4 then Some (decoded rv_insn_addi 2 0 0 0)
      else None)"

section \<open>Properties of the interpreter core\<close>

lemmas op_defs = RVOP_def nextop_def end_insn_def jump_taken_def indirect_jump_def
  RV_EXC_MISALIGN_HANDLER_insn_def RV_EXC_MISALIGN_HANDLER_io_def rv_except_misaligned_def
  LOOKUP_OR_UPDATE_BRANCH_HISTORY_TABLE_def set_X_def reg_after_def regs_after_def

lemmas call_defs = call_mem_read_b_def call_mem_read_s_def call_mem_read_w_def
  call_mem_write_b_def call_mem_write_s_def call_mem_write_w_def

lemmas example_defs = rv_reset_def decoded_def io_example_def rv_reg_ra_def rv_reg_sp_def
  rv_reg_zero_def





lemma X_rv_with [simp]: "X (rv_with r v) r' = (if r' = r then v else 0)"
  by (simp add: rv_with_def rv_reset_def)

lemma decoded_sel [simp]:
  "opcode (decoded opc d s1 s2 i) = opc" "rd (decoded opc d s1 s2 i) = d"
  "rs1 (decoded opc d s1 s2 i) = s1" "rs2 (decoded opc d s1 s2 i) = s2"
  "imm (decoded opc d s1 s2 i) = i" "shamt (decoded opc d s1 s2 i) = 0"
  "next (decoded opc d s1 s2 i) = None" "branch_taken (decoded opc d s1 s2 i) = None"
  "branch_untaken (decoded opc d s1 s2 i) = None"
  by (simp_all add: decoded_def)



lemma branch_next_PC:
  "next_PC (RVOP 4 (BRANCH_FUNC cond) ir rv cycle pc) =
     Some (if cond (X rv (rs1 ir)) (X rv (rs2 ir)) then pc + 4 else pc + imm ir)"
  by (simp add: BRANCH_FUNC_def op_defs Let_def split: option.splits)

lemma branch_taken_flag:
  "map_option is_branch_taken (machine_of (RVOP 4 (BRANCH_FUNC cond) ir rv cycle pc)) =
     Some (\<not> cond (X rv (rs1 ir)) (X rv (rs2 ir)))"
  by (simp add: BRANCH_FUNC_def op_defs Let_def split: option.splits)

lemma branch_regs:
  "regs_after (RVOP 4 (BRANCH_FUNC cond) ir rv cycle pc) = Some (X rv)"
  by (simp add: BRANCH_FUNC_def op_defs Let_def split: option.splits)

text \<open>
  Claim C5. Each of BEQ, BNE, BLT, BGE, BLTU and BGEU is taken exactly when its predicate
  holds on \<open>X[rs1]\<close> and \<open>X[rs2]\<close> (equality, inequality, signed less-than, signed
  greater-or-equal, unsigned less-than, unsigned greater-or-equal); a taken branch
  continues at \<open>pc + imm\<close>, an untaken one at \<open>pc + 4\<close>. The five-instruction BLT scenario,
  run from the machine after reset, ends with \<open>X[3] = 0\<close>, \<open>X[4] = 7\<close> and \<open>PC = 20\<close>.
\<close>

theorem branch_taken_iff_predicate:
  "taken_after (do_beq ir rv cycle pc) = Some (X rv (rs1 ir) = X rv (rs2 ir)) \<and>
   next_PC (do_beq ir rv cycle pc) =
     Some (if X rv (rs1 ir) = X rv (rs2 ir) then pc + imm ir else pc + 4) \<and>
   taken_after (do_bne ir rv cycle pc) = Some (X rv (rs1 ir) \<noteq> X rv (rs2 ir)) \<and>
   next_PC (do_bne ir rv cycle pc) =
     Some (if X rv (rs1 ir) \<noteq> X rv (rs2 ir) then pc + imm ir else pc + 4) \<and>
   taken_after (do_blt ir rv cycle pc) = Some (sint (X rv (rs1 ir)) < sint (X rv (rs2 ir))) \<and>
   next_PC (do_blt ir rv cycle pc) =
     Some (if sint (X rv (rs1 ir)) < sint (X rv (rs2 ir)) then pc + imm ir else pc + 4) \<and>
   taken_after (do_bge ir rv cycle pc) = Some (sint (X rv (rs1 ir)) \<ge> sint (X rv (rs2 ir))) \<and>
   next_PC (do_bge ir rv cycle pc) =
     Some (if sint (X rv (rs1 ir)) \<ge> sint (X rv (rs2 ir)) then pc + imm ir else pc + 4) \<and>
   taken_after (do_bltu ir rv cycle pc) = Some (uint (X rv (rs1 ir)) < uint (X rv (rs2 ir))) \<and>
   next_PC (do_bltu ir rv cycle pc) =
     Some (if uint (X rv (rs1 ir)) < uint (X rv (rs2 ir)) then pc + imm ir else pc + 4) \<and>
   taken_after (do_bgeu ir rv cycle pc) = Some (uint (X rv (rs1 ir)) \<ge> uint (X rv (rs2 ir))) \<and>
   next_PC (do_bgeu ir rv cycle pc) =
     Some (if uint (X rv (rs1 ir)) \<ge> uint (X rv (rs2 ir)) then pc + imm ir else pc + 4) \<and>
   map_option (\<lambda>rv'. (X rv' 3, X rv' 4, PC rv')) (rv_run 5 blt_scenario rv_reset) =
     Some (0, 7, 20)"
proof -
  have scenario: "map_option (\<lambda>rv'. (X rv' 3, X rv' 4, PC rv')) (rv_run 5 blt_scenario rv_reset) =
     Some (0, 7, 20)"
    by code_simp
  show ?thesis
    unfolding taken_after_def do_beq_def do_bne_def do_blt_def do_bge_def do_bltu_def do_bgeu_def
      branch_next_PC branch_taken_flag
    using scenario by (simp add: not_le not_less)
qed

text \<open>
  The previous theorem at a taken and at an untaken BLT: \<open>X[2] = 0 < X[1] = 5\<close> at
  \<open>pc = 8\<close> with offset 8, and the same record with the operands equal.
\<close>

theorem branch_taken_iff_predicate_witness:
  "taken_after (do_blt (decoded rv_insn_blt 0 2 1 8) (rv_with 1 5) 0 8) = Some True \<and>
   next_PC (do_blt (decoded rv_insn_blt 0 2 1 8) (rv_with 1 5) 0 8) = Some 16 \<and>
   taken_after (do_blt (decoded rv_insn_blt 0 2 1 8) (rv_with 1 0) 0 8) = Some False \<and>
   next_PC (do_blt (decoded rv_insn_blt 0 2 1 8) (rv_with 1 0) 0 8) = Some 12"
  using branch_taken_iff_predicate [of "decoded rv_insn_blt 0 2 1 8" "rv_with 1 5" 0 8]
    branch_taken_iff_predicate [of "decoded rv_insn_blt 0 2 1 8" "rv_with 1 0" 0 8]
  by simp

lemma and_1_bit0: "(a AND 1 \<noteq> 0) = bit (a :: u32) 0"
  by (simp add: and_one_eq bit_0 even_iff_mod_2_eq_zero)

lemma and_3_bits: "(a AND 3 \<noteq> 0) = (bit (a :: u32) 0 \<or> bit a 1)"
proof -
  have three: "bit (3 :: u32) n = (n = 0 \<or> n = 1)" for n
  proof -
    have m: "(3 :: u32) = mask 2"
      by (simp add: mask_eq_exp_minus_1)
    have "bit (mask 2 :: u32) n = (n < 2)"
      by (simp only: bit_mask_iff) auto
    then show ?thesis
      unfolding m by (simp add: less_2_cases_iff)
  qed
  have "(a AND 3 = 0) = (\<forall>n<32. \<not> bit (a AND 3) n)"
    by (simp add: bit_eq_iff)
  also have "\<dots> = (\<forall>n<32. \<not> (bit a n \<and> (n = 0 \<or> n = 1)))"
    by (simp only: bit_and_iff three)
  also have "\<dots> = (\<not> bit a 0 \<and> \<not> bit a 1)"
    by (metis One_nat_def zero_less_numeral one_less_numeral_iff semiring_norm(76))
  finally show ?thesis
    by blast
qed


text \<open>
  The accesses that carry the alignment check. A halfword access (LH, LHU, SH) whose
  effective address has bit 0 set, and a word access (LW, SW, C.LW, C.SW, C.LWSP,
  C.SWSP) whose effective address has bit 0 or bit 1 set, returns with the load- or
  store-misalignment exception for that address: no host callback is invoked, and the
  host's state, the register file and the PC are as before the instruction. A byte
  access (LB, LBU, SB) never raises and always invokes its callback.
\<close>

lemma checked_access_raises_without_callback:
  "(bit (X rv (rs1 ir) + imm ir) 0 \<longrightarrow>
      raises_without_effect (do_lh ir rv cycle pc) rv pc load (X rv (rs1 ir) + imm ir) \<and>
      raises_without_effect (do_lhu ir rv cycle pc) rv pc load (X rv (rs1 ir) + imm ir) \<and>
      raises_without_effect (do_sh ir rv cycle pc) rv pc store (X rv (rs1 ir) + imm ir)) \<and>
   (bit (X rv (rs1 ir) + imm ir) 0 \<or> bit (X rv (rs1 ir) + imm ir) 1 \<longrightarrow>
      raises_without_effect (do_lw ir rv cycle pc) rv pc load (X rv (rs1 ir) + imm ir) \<and>
      raises_without_effect (do_sw ir rv cycle pc) rv pc store (X rv (rs1 ir) + imm ir) \<and>
      raises_without_effect (do_clw ir rv cycle pc) rv pc load (X rv (rs1 ir) + imm ir) \<and>
      raises_without_effect (do_csw ir rv cycle pc) rv pc store (X rv (rs1 ir) + imm ir)) \<and>
   (bit (X rv rv_reg_sp + imm ir) 0 \<or> bit (X rv rv_reg_sp + imm ir) 1 \<longrightarrow>
      raises_without_effect (do_clwsp ir rv cycle pc) rv pc load (X rv rv_reg_sp + imm ir) \<and>
      raises_without_effect (do_cswsp ir rv cycle pc) rv pc store (X rv rv_reg_sp + imm ir)) \<and>
   returned (do_lb ir rv cycle pc) \<noteq> Some False \<and>
   io_after (do_lb ir rv cycle pc) =
     Some (io_log rv @ [Call_mem_read_b (X rv (rs1 ir) + imm ir)], host rv) \<and>
   returned (do_lbu ir rv cycle pc) \<noteq> Some False \<and>
   io_after (do_lbu ir rv cycle pc) =
     Some (io_log rv @ [Call_mem_read_b (X rv (rs1 ir) + imm ir)], host rv) \<and>
   returned (do_sb ir rv cycle pc) \<noteq> Some False \<and>
   io_after (do_sb ir rv cycle pc) =
     Some (io_log rv @ [Call_mem_write_b (X rv (rs1 ir) + imm ir) (ucast (X rv (rs2 ir)))],
           mem_write_b (io rv) (host rv) (X rv (rs1 ir) + imm ir) (ucast (X rv (rs2 ir))))"
proof -
  have half: "raises_without_effect (do_lh ir rv cycle pc) rv pc load (X rv (rs1 ir) + imm ir) \<and>
      raises_without_effect (do_lhu ir rv cycle pc) rv pc load (X rv (rs1 ir) + imm ir) \<and>
      raises_without_effect (do_sh ir rv cycle pc) rv pc store (X rv (rs1 ir) + imm ir)"
    if "bit (X rv (rs1 ir) + imm ir) 0"
  proof -
    from that have "(X rv (rs1 ir) + imm ir) AND 1 \<noteq> 0"
      by (simp only: and_1_bit0)
    then show ?thesis
      by (simp add: do_lh_def do_lhu_def do_sh_def op_defs raises_without_effect_def Let_def)
  qed
  have word: "raises_without_effect (do_lw ir rv cycle pc) rv pc load (X rv (rs1 ir) + imm ir) \<and>
      raises_without_effect (do_sw ir rv cycle pc) rv pc store (X rv (rs1 ir) + imm ir) \<and>
      raises_without_effect (do_clw ir rv cycle pc) rv pc load (X rv (rs1 ir) + imm ir) \<and>
      raises_without_effect (do_csw ir rv cycle pc) rv pc store (X rv (rs1 ir) + imm ir)"
    if "bit (X rv (rs1 ir) + imm ir) 0 \<or> bit (X rv (rs1 ir) + imm ir) 1"
  proof -
    from that have "(X rv (rs1 ir) + imm ir) AND 3 \<noteq> 0"
      by (simp only: and_3_bits)
    then show ?thesis
      by (simp add: do_lw_def do_sw_def do_clw_def do_csw_def op_defs
            raises_without_effect_def Let_def)
  qed
  have sp: "raises_without_effect (do_clwsp ir rv cycle pc) rv pc load (X rv rv_reg_sp + imm ir) \<and>
      raises_without_effect (do_cswsp ir rv cycle pc) rv pc store (X rv rv_reg_sp + imm ir)"
    if "bit (X rv rv_reg_sp + imm ir) 0 \<or> bit (X rv rv_reg_sp + imm ir) 1"
  proof -
    from that have "(X rv rv_reg_sp + imm ir) AND 3 \<noteq> 0"
      by (simp only: and_3_bits)
    then show ?thesis
      by (simp add: do_clwsp_def do_cswsp_def op_defs raises_without_effect_def Let_def)
  qed
  have bytes: "returned (do_lb ir rv cycle pc) \<noteq> Some False"
    "io_after (do_lb ir rv cycle pc) =
       Some (io_log rv @ [Call_mem_read_b (X rv (rs1 ir) + imm ir)], host rv)"
    "returned (do_lbu ir rv cycle pc) \<noteq> Some False"
    "io_after (do_lbu ir rv cycle pc) =
       Some (io_log rv @ [Call_mem_read_b (X rv (rs1 ir) + imm ir)], host rv)"
    "returned (do_sb ir rv cycle pc) \<noteq> Some False"
    "io_after (do_sb ir rv cycle pc) =
       Some (io_log rv @ [Call_mem_write_b (X rv (rs1 ir) + imm ir) (ucast (X rv (rs2 ir)))],
             mem_write_b (io rv) (host rv) (X rv (rs1 ir) + imm ir) (ucast (X rv (rs2 ir))))"
    by (simp_all add: do_lb_def do_lbu_def do_sb_def op_defs call_defs io_after_def Let_def
          split: option.splits)
  from half word sp bytes show ?thesis
    by (intro conjI impI) blast+
qed

text \<open>
  The hypotheses of the previous lemma at concrete inputs: SH to \<open>0x1001\<close>, SW to
  \<open>0x1002\<close> and C.SWSP with \<open>sp = 0x1002\<close>.
\<close>

lemma checked_access_raises_without_callback_witness:
  "bit (X (rv_with 1 0x1001) (rs1 (decoded rv_insn_sh 0 1 2 0)) +
        imm (decoded rv_insn_sh 0 1 2 0)) 0 \<and>
   raises_without_effect (do_sh (decoded rv_insn_sh 0 1 2 0) (rv_with 1 0x1001) 0 0x2000)
     (rv_with 1 0x1001) 0x2000 store 0x1001 \<and>
   bit (X (rv_with 1 0x1002) (rs1 (decoded rv_insn_sw 0 1 2 0)) +
        imm (decoded rv_insn_sw 0 1 2 0)) 1 \<and>
   raises_without_effect (do_sw (decoded rv_insn_sw 0 1 2 0) (rv_with 1 0x1002) 0 0x2000)
     (rv_with 1 0x1002) 0x2000 store 0x1002 \<and>
   bit (X (rv_with 2 0x1002) rv_reg_sp + imm (decoded rv_insn_cswsp 0 0 1 0)) 1 \<and>
   raises_without_effect (do_cswsp (decoded rv_insn_cswsp 0 0 1 0) (rv_with 2 0x1002) 0 0x2000)
     (rv_with 2 0x1002) 0x2000 store 0x1002"
proof -
  have v: "X (rv_with 1 0x1001) (rs1 (decoded rv_insn_sh 0 1 2 0)) +
        imm (decoded rv_insn_sh 0 1 2 0) = 0x1001"
    "X (rv_with 1 0x1002) (rs1 (decoded rv_insn_sw 0 1 2 0)) +
        imm (decoded rv_insn_sw 0 1 2 0) = 0x1002"
    "X (rv_with 2 0x1002) rv_reg_sp + imm (decoded rv_insn_cswsp 0 0 1 0) = 0x1002"
    by (simp_all add: rv_reg_sp_def)
  have b: "bit (0x1001 :: u32) 0" "bit (0x1002 :: u32) 1"
    by simp_all
  note a = checked_access_raises_without_callback
             [of "rv_with 1 0x1001" "decoded rv_insn_sh 0 1 2 0" 0 "0x2000"]
  note c = checked_access_raises_without_callback
             [of "rv_with 1 0x1002" "decoded rv_insn_sw 0 1 2 0" 0 "0x2000"]
  note d = checked_access_raises_without_callback
             [of "rv_with 2 0x1002" "decoded rv_insn_cswsp 0 0 1 0" 0 "0x2000"]
  from a b show ?thesis
    unfolding v using c d b unfolding v by blast
qed

text \<open>
  Claim C4 does not hold of the code. The word accesses of the A and F extensions carry
  no alignment check. From the machine after reset with \<open>X[1] = 0x1002\<close> (bit 1 set),
  \<^verbatim>\<open>LR.W x5, (x1)\<close> invokes \<^verbatim>\<open>mem_read_w\<close> at \<open>0x1002\<close>, writes the word read to \<open>X[5]\<close>
  and returns true with no exception latched, where \<^verbatim>\<open>LW x5, 0(x1)\<close> raises without
  invoking the callback; \<^verbatim>\<open>SC.W x5, x2, (x1)\<close> invokes \<^verbatim>\<open>mem_write_w\<close> at \<open>0x1002\<close>.
  With \<open>X[1] = 0x1000\<close>, \<^verbatim>\<open>FLW f5, 2(x1)\<close> and \<^verbatim>\<open>FSW f2, 2(x1)\<close> invoke \<^verbatim>\<open>mem_read_w\<close> and
  \<^verbatim>\<open>mem_write_w\<close> at \<open>0x1002\<close>. \<^verbatim>\<open>AMOSWAP.W\<close> with \<^verbatim>\<open>rs1 = 1\<close> invokes \<^verbatim>\<open>mem_read_w\<close> and
  \<^verbatim>\<open>mem_write_s\<close> at the odd address 1.
\<close>

theorem unchecked_access_invokes_callback:
  "bit (0x1002 :: u32) 1 \<and>
   io_after (do_lrw (decoded rv_insn_lrw 5 1 0 0) (rv_with 1 0x1002) 0 0x2000) =
     Some ([Call_mem_read_w 0x1002], ()) \<and>
   reg_after (do_lrw (decoded rv_insn_lrw 5 1 0 0) (rv_with 1 0x1002) 0 0x2000) 5 =
     Some 0xDEADBEEF \<and>
   returned (do_lrw (decoded rv_insn_lrw 5 1 0 0) (rv_with 1 0x1002) 0 0x2000) = Some True \<and>
   misalign_after (do_lrw (decoded rv_insn_lrw 5 1 0 0) (rv_with 1 0x1002) 0 0x2000) =
     Some None \<and>
   io_after (do_lw (decoded rv_insn_lw 5 1 0 0) (rv_with 1 0x1002) 0 0x2000) =
     Some ([], ()) \<and>
   returned (do_lw (decoded rv_insn_lw 5 1 0 0) (rv_with 1 0x1002) 0 0x2000) = Some False \<and>
   misalign_after (do_lw (decoded rv_insn_lw 5 1 0 0) (rv_with 1 0x1002) 0 0x2000) =
     Some (Some (load, 0x1002)) \<and>
   io_after (do_scw (decoded rv_insn_scw 5 1 2 0) (rv_with2 1 0x1002 2 7) 0 0x2000) =
     Some ([Call_mem_write_w 0x1002 7], ()) \<and>
   returned (do_scw (decoded rv_insn_scw 5 1 2 0) (rv_with2 1 0x1002 2 7) 0 0x2000) =
     Some True \<and>
   misalign_after (do_scw (decoded rv_insn_scw 5 1 2 0) (rv_with2 1 0x1002 2 7) 0 0x2000) =
     Some None \<and>
   io_after (do_flw (decoded rv_insn_flw 5 1 0 2) (rv_with 1 0x1000) 0 0x2000) =
     Some ([Call_mem_read_w 0x1002], ()) \<and>
   misalign_after (do_flw (decoded rv_insn_flw 5 1 0 2) (rv_with 1 0x1000) 0 0x2000) =
     Some None \<and>
   io_after (do_fsw (decoded rv_insn_fsw 0 1 2 2) (rv_with 1 0x1000) 0 0x2000) =
     Some ([Call_mem_write_w 0x1002 0], ()) \<and>
   misalign_after (do_fsw (decoded rv_insn_fsw 0 1 2 2) (rv_with 1 0x1000) 0 0x2000) =
     Some None \<and>
   io_after (do_amoswapw (decoded rv_insn_amoswapw 5 1 2 0) (rv_with 2 7) 0 0x2000) =
     Some ([Call_mem_read_w 1, Call_mem_write_s 1 7], ()) \<and>
   misalign_after (do_amoswapw (decoded rv_insn_amoswapw 5 1 2 0) (rv_with 2 7) 0 0x2000) =
     Some None"
  by code_simp

text \<open>
  Claim C6. JAL with \<open>rd \<noteq> 0\<close> writes \<open>pc + 4\<close> to \<open>rd\<close>, C.JAL writes \<open>pc + 2\<close> to \<open>ra\<close>,
  C.J writes no register; each continues at \<open>pc + imm\<close>. When that target is misaligned
  the jump itself returns with the instruction-misaligned exception (JAL reports its own
  address, C.JAL and C.J the target); otherwise no exception is raised.
\<close>

theorem jal_class_link_and_target:
  "next_PC (do_jal ir rv cycle pc) = Some (pc + imm ir) \<and>
   (rd ir \<noteq> 0 \<longrightarrow> reg_after (do_jal ir rv cycle pc) (rd ir) = Some (pc + 4)) \<and>
   (insn_is_misaligned (pc + imm ir) \<longrightarrow> raises (do_jal ir rv cycle pc) insn pc) \<and>
   (\<not> insn_is_misaligned (pc + imm ir) \<longrightarrow> returned (do_jal ir rv cycle pc) \<noteq> Some False) \<and>
   next_PC (do_cjal ir rv cycle pc) = Some (pc + imm ir) \<and>
   reg_after (do_cjal ir rv cycle pc) rv_reg_ra = Some (pc + 2) \<and>
   (insn_is_misaligned (pc + imm ir) \<longrightarrow>
      raises (do_cjal ir rv cycle pc) insn (pc + imm ir)) \<and>
   (\<not> insn_is_misaligned (pc + imm ir) \<longrightarrow> returned (do_cjal ir rv cycle pc) \<noteq> Some False) \<and>
   next_PC (do_cj ir rv cycle pc) = Some (pc + imm ir) \<and>
   regs_after (do_cj ir rv cycle pc) = Some (X rv) \<and>
   (insn_is_misaligned (pc + imm ir) \<longrightarrow> raises (do_cj ir rv cycle pc) insn (pc + imm ir)) \<and>
   (\<not> insn_is_misaligned (pc + imm ir) \<longrightarrow> returned (do_cj ir rv cycle pc) \<noteq> Some False)"
proof -
  have pcs: "next_PC (do_jal ir rv cycle pc) = Some (pc + imm ir)"
    "next_PC (do_cjal ir rv cycle pc) = Some (pc + imm ir)"
    "next_PC (do_cj ir rv cycle pc) = Some (pc + imm ir)"
    by (simp_all add: do_jal_def do_cjal_def do_cj_def op_defs Let_def split: option.splits)
  have link: "reg_after (do_jal ir rv cycle pc) (rd ir) = Some (pc + 4)" if "rd ir \<noteq> 0"
    using that by (simp add: do_jal_def op_defs Let_def split: option.splits)
  have clink: "reg_after (do_cjal ir rv cycle pc) rv_reg_ra = Some (pc + 2)"
    "regs_after (do_cj ir rv cycle pc) = Some (X rv)"
    by (simp_all add: do_cjal_def do_cj_def op_defs Let_def split: option.splits)
  have mis: "raises (do_jal ir rv cycle pc) insn pc"
    "raises (do_cjal ir rv cycle pc) insn (pc + imm ir)"
    "raises (do_cj ir rv cycle pc) insn (pc + imm ir)"
    if "insn_is_misaligned (pc + imm ir)"
    using that by (simp_all add: do_jal_def do_cjal_def do_cj_def op_defs raises_def Let_def)
  have ok: "returned (do_jal ir rv cycle pc) \<noteq> Some False"
    "returned (do_cjal ir rv cycle pc) \<noteq> Some False"
    "returned (do_cj ir rv cycle pc) \<noteq> Some False"
    if "\<not> insn_is_misaligned (pc + imm ir)"
    using that
    by (simp_all add: do_jal_def do_cjal_def do_cj_def op_defs Let_def split: option.splits)
  from pcs link clink mis ok show ?thesis
    by (intro conjI impI) blast+
qed

text \<open>
  The hypotheses of the previous theorem at concrete inputs: JAL and C.JAL at
  \<open>pc = 0x2000\<close> with link register \<open>x1\<close>, once with the aligned offset \<open>0x100\<close> and once
  with the misaligned offset \<open>0x101\<close>.
\<close>

theorem jal_class_link_and_target_witness:
  "rd (decoded rv_insn_jal 1 0 0 0x100) \<noteq> 0 \<and>
   \<not> insn_is_misaligned (0x2000 + imm (decoded rv_insn_jal 1 0 0 0x100)) \<and>
   next_PC (do_jal (decoded rv_insn_jal 1 0 0 0x100) rv_reset 0 0x2000) = Some 0x2100 \<and>
   reg_after (do_jal (decoded rv_insn_jal 1 0 0 0x100) rv_reset 0 0x2000) 1 = Some 0x2004 \<and>
   returned (do_jal (decoded rv_insn_jal 1 0 0 0x100) rv_reset 0 0x2000) \<noteq> Some False \<and>
   reg_after (do_cjal (decoded rv_insn_cjal 1 0 0 0x100) rv_reset 0 0x2000) 1 = Some 0x2002 \<and>
   insn_is_misaligned (0x2000 + imm (decoded rv_insn_jal 1 0 0 0x101)) \<and>
   raises (do_jal (decoded rv_insn_jal 1 0 0 0x101) rv_reset 0 0x2000) insn 0x2000 \<and>
   raises (do_cjal (decoded rv_insn_cjal 1 0 0 0x101) rv_reset 0 0x2000) insn 0x2101"
proof -
  have h: "rd (decoded rv_insn_jal 1 0 0 0x100) \<noteq> 0"
    "\<not> insn_is_misaligned (0x2000 + imm (decoded rv_insn_jal 1 0 0 0x100))"
    "insn_is_misaligned (0x2000 + imm (decoded rv_insn_jal 1 0 0 0x101))"
    "insn_is_misaligned (0x2000 + imm (decoded rv_insn_cjal 1 0 0 0x101))"
    by (simp_all add: insn_is_misaligned_def)
  have v: "0x2000 + imm (decoded rv_insn_jal 1 0 0 0x100) = 0x2100"
    "rd (decoded rv_insn_jal 1 0 0 0x100) = 1"
    "0x2000 + imm (decoded rv_insn_cjal 1 0 0 0x101) = 0x2101"
    "(0x2000 :: u32) + 4 = 0x2004" "(0x2000 :: u32) + 2 = 0x2002" "rv_reg_ra = 1"
    by (simp_all add: rv_reg_ra_def)
  note a = jal_class_link_and_target [of "decoded rv_insn_jal 1 0 0 0x100" rv_reset 0 "0x2000"]
  note b = jal_class_link_and_target [of "decoded rv_insn_jal 1 0 0 0x101" rv_reset 0 "0x2000"]
  note c = jal_class_link_and_target [of "decoded rv_insn_cjal 1 0 0 0x101" rv_reset 0 "0x2000"]
  note d = jal_class_link_and_target [of "decoded rv_insn_cjal 1 0 0 0x100" rv_reset 0 "0x2000"]
  from a h show ?thesis
    unfolding v using b c d h unfolding v by blast
qed

text \<open>
  Claim C2 does not hold of the code. From the machine after reset (where \<open>X[0] = 0\<close>),
  \<^verbatim>\<open>LW x0, 0(x1)\<close> leaves the loaded word \<open>0xDEADBEEF\<close> in \<open>X[0]\<close>, and \<^verbatim>\<open>ADDI x0, x0, 5\<close>
  leaves 5 there; after \<^verbatim>\<open>LW x0, 0(x1); ADDI x2, x0, 0\<close> the second instruction has read
  the written value into \<open>X[2]\<close>.
\<close>

theorem rd_zero_write_reaches_x0:
  "X rv_reset 0 = 0 \<and>
   reg_after (do_lw (decoded rv_insn_lw 0 1 0 0) rv_reset 0 0) 0 = Some 0xDEADBEEF \<and>
   reg_after (do_addi (decoded rv_insn_addi 0 0 0 5) rv_reset 0 0) 0 = Some 5 \<and>
   map_option (\<lambda>rv'. (X rv' 0, X rv' 2)) (rv_run 3 x0_scenario rv_reset) =
     Some (0xDEADBEEF, 0xDEADBEEF)"
  by code_simp

lemma high_word_of_product:
  "(ucast (drop_bit 32 (word_of_int P :: u64)) :: u32) = word_of_int (P div 2 ^ 32)"
proof -
  have "uint (drop_bit 32 (word_of_int P :: u64)) = drop_bit 32 (take_bit 64 P)"
    by (simp add: unsigned_drop_bit_eq uint_word_of_int_eq)
  also have "\<dots> = take_bit 32 (drop_bit 32 P)"
    by (simp add: drop_bit_take_bit)
  finally have "(ucast (drop_bit 32 (word_of_int P :: u64)) :: u32) =
      word_of_int (take_bit 32 (drop_bit 32 P))"
    by (simp only: ucast_eq)
  also have "\<dots> = word_of_int (drop_bit 32 P)"
    by (simp add: word_of_int_eq_iff)
  finally show ?thesis
    by (simp add: drop_bit_eq_div)
qed

lemma wide_products:
  fixes a b :: u32
  shows "(scast a :: u64) * scast b = word_of_int (sint a * sint b)"
    and "(scast a :: u64) * ucast b = word_of_int (sint a * uint b)"
    and "(ucast a :: u64) * ucast b = word_of_int (uint a * uint b)"
proof -
  have s: "(scast c :: u64) = word_of_int (sint c)" for c :: u32
    by (rule scast_eq)
  have u: "(ucast c :: u64) = word_of_int (uint c)" for c :: u32
    by (rule ucast_eq)
  show "(scast a :: u64) * scast b = word_of_int (sint a * sint b)"
    by (simp only: s wi_hom_mult)
  show "(scast a :: u64) * ucast b = word_of_int (sint a * uint b)"
    by (simp only: s u wi_hom_mult)
  show "(ucast a :: u64) * ucast b = word_of_int (uint a * uint b)"
    by (simp only: u wi_hom_mult)
qed

text \<open>
  Claim C7. MULH, MULHSU and MULHU write to \<open>rd\<close> bits 63..32 of the exact product of the
  two operands, that is the product divided by \<open>2 ^ 32\<close> (rounded down) as a 32-bit
  pattern, where MULH reads both operands as signed, MULHSU reads \<open>rs1\<close> as signed and
  \<open>rs2\<close> as unsigned, and MULHU reads both as unsigned.
\<close>

theorem mulh_family_high_word:
  "reg_after (do_mulh ir rv cycle pc) (rd ir) =
     Some (word_of_int ((sint (X rv (rs1 ir)) * sint (X rv (rs2 ir))) div 2 ^ 32)) \<and>
   reg_after (do_mulhsu ir rv cycle pc) (rd ir) =
     Some (word_of_int ((sint (X rv (rs1 ir)) * uint (X rv (rs2 ir))) div 2 ^ 32)) \<and>
   reg_after (do_mulhu ir rv cycle pc) (rd ir) =
     Some (word_of_int ((uint (X rv (rs1 ir)) * uint (X rv (rs2 ir))) div 2 ^ 32))"
proof -
  have "reg_after (do_mulh ir rv cycle pc) (rd ir) =
     Some (ucast (drop_bit 32 ((scast (X rv (rs1 ir)) :: u64) * scast (X rv (rs2 ir)))))"
    by (simp add: do_mulh_def op_defs Let_def split: option.splits)
  moreover have "reg_after (do_mulhsu ir rv cycle pc) (rd ir) =
     Some (ucast (drop_bit 32 ((scast (X rv (rs1 ir)) :: u64) * ucast (X rv (rs2 ir)))))"
    by (simp add: do_mulhsu_def op_defs Let_def split: option.splits)
  moreover have "reg_after (do_mulhu ir rv cycle pc) (rd ir) =
     Some (ucast (drop_bit 32 ((ucast (X rv (rs1 ir)) :: u64) * ucast (X rv (rs2 ir)))))"
    by (simp add: do_mulhu_def op_defs Let_def split: option.splits)
  ultimately show ?thesis
    by (simp only: wide_products high_word_of_product)
qed

lemma sint_word_of_int_fits:
  "- (2 ^ 31) \<le> k \<Longrightarrow> k < 2 ^ 31 \<Longrightarrow> sint (word_of_int k :: u32) = k"
  by (simp add: sint_sbintrunc' signed_take_bit_int_eq_self)

lemma sint_bounds32: "- (2 ^ 31) \<le> sint (a :: u32)" "sint (a :: u32) < 2 ^ 31"
  using sint_ge [of a] sint_lt [of a] by simp_all

lemma sint_eq_0_iff32: "(sint (b :: u32) = 0) = (b = 0)"
  by (metis sint_0 signed_word_eqI)

lemma sint_eq_m1_iff32: "(sint (b :: u32) = - 1) = (b = 0xFFFFFFFF)"
proof -
  have "(0xFFFFFFFF :: u32) = - 1" by simp
  then show ?thesis
    by (metis sint_n1 signed_word_eqI)
qed

lemma sint_min32: "(sint (a :: u32) = - 2147483648) = (a = 0x80000000)"
proof -
  have "sint (0x80000000 :: u32) = - 2147483648" by simp
  then show ?thesis
    by (metis signed_word_eqI)
qed

lemma sdiv_fits:
  fixes x y :: int
  assumes x: "- (2 ^ 31) \<le> x" "x < 2 ^ 31" and y: "y \<noteq> 0"
    and ov: "\<not> (x = - (2 ^ 31) \<and> y = - 1)"
  shows "- (2 ^ 31) \<le> x sdiv y \<and> x sdiv y < 2 ^ 31"
proof -
  from sdiv_int_range [of x y] have r: "- \<bar>x\<bar> \<le> x sdiv y" "x sdiv y \<le> \<bar>x\<bar>"
    by simp_all
  from x have ax: "\<bar>x\<bar> \<le> 2 ^ 31"
    by simp
  show ?thesis
  proof (cases "x = - (2 ^ 31)")
    case False
    with x have "\<bar>x\<bar> < 2 ^ 31" by simp
    with r ax show ?thesis by simp
  next
    case True
    with ov have y1: "y \<noteq> - 1" by simp
    show ?thesis
    proof (cases "y > 0")
      case True
      then have "x sdiv y \<le> 0"
        using \<open>x = - (2 ^ 31)\<close>
        by (simp add: signed_divide_int_def sgn_if pos_imp_zdiv_nonneg_iff)
      with r ax show ?thesis by simp
    next
      case False
      with y y1 have "y < - 1" by simp
      then have "1 < \<bar>y\<bar>" by simp
      then have "(2 ^ 31 :: int) div \<bar>y\<bar> < 2 ^ 31"
        by (intro int_div_less_self) simp_all
      moreover have "x sdiv y = 2 ^ 31 div \<bar>y\<bar>"
        using \<open>x = - (2 ^ 31)\<close> \<open>y < - 1\<close> by (simp add: signed_divide_int_def sgn_if)
      ultimately show ?thesis
        using r ax by simp
    qed
  qed
qed

lemma smod_fits:
  fixes x y :: int
  assumes y: "- (2 ^ 31) \<le> y" "y < 2 ^ 31" "y \<noteq> 0"
  shows "- (2 ^ 31) \<le> x smod y \<and> x smod y < 2 ^ 31"
proof -
  from smod_int_range [OF y(3), of x] have "- \<bar>y\<bar> + 1 \<le> x smod y" "x smod y \<le> \<bar>y\<bar> - 1"
    by simp_all
  moreover from y have "\<bar>y\<bar> \<le> 2 ^ 31" by simp
  ultimately show ?thesis by simp
qed

text \<open>
  Claim C3. With \<open>a\<close> the dividend and \<open>b\<close> the divisor register: a zero divisor makes
  DIV and DIVU write all-ones and REM and REMU write the dividend; \<open>0x80000000\<close> divided
  by \<open>-1\<close> makes DIV write the dividend and REM write 0; otherwise DIV writes the quotient
  truncated towards zero and REM the matching remainder (both as signed readings, with
  no wrap-around), and DIVU and REMU write the unsigned quotient and remainder.
\<close>

theorem div_rem_special_cases:
  assumes a: "X rv (rs1 ir) = a" and b: "X rv (rs2 ir) = b"
  shows
  "(b = 0 \<longrightarrow>
      reg_after (do_div ir rv cycle pc) (rd ir) = Some 0xFFFFFFFF \<and>
      reg_after (do_rem ir rv cycle pc) (rd ir) = Some a \<and>
      reg_after (do_divu ir rv cycle pc) (rd ir) = Some 0xFFFFFFFF \<and>
      reg_after (do_remu ir rv cycle pc) (rd ir) = Some a) \<and>
   (a = 0x80000000 \<and> b = 0xFFFFFFFF \<longrightarrow>
      reg_after (do_div ir rv cycle pc) (rd ir) = Some 0x80000000 \<and>
      reg_after (do_rem ir rv cycle pc) (rd ir) = Some 0) \<and>
   (b \<noteq> 0 \<and> \<not> (a = 0x80000000 \<and> b = 0xFFFFFFFF) \<longrightarrow>
      map_option sint (reg_after (do_div ir rv cycle pc) (rd ir)) =
        Some (sgn (sint a) * sgn (sint b) * (\<bar>sint a\<bar> div \<bar>sint b\<bar>)) \<and>
      map_option sint (reg_after (do_rem ir rv cycle pc) (rd ir)) =
        Some (sint a - sint b * (sgn (sint a) * sgn (sint b) * (\<bar>sint a\<bar> div \<bar>sint b\<bar>)))) \<and>
   (b \<noteq> 0 \<longrightarrow>
      map_option uint (reg_after (do_divu ir rv cycle pc) (rd ir)) = Some (uint a div uint b) \<and>
      map_option uint (reg_after (do_remu ir rv cycle pc) (rd ir)) = Some (uint a mod uint b))"
proof -
  have dv: "reg_after (do_div ir rv cycle pc) (rd ir) =
      Some (if b = 0 then NOT 0
            else if b = 0xFFFFFFFF \<and> a = 0x80000000 then a
            else word_of_int (sint a sdiv sint b))"
    unfolding a [symmetric] b [symmetric]
    by (auto simp add: do_div_def op_defs Let_def sint_eq_0_iff32 sint_eq_m1_iff32
          split: option.splits)
  have rm: "reg_after (do_rem ir rv cycle pc) (rd ir) =
      Some (if b = 0 then a
            else if b = 0xFFFFFFFF \<and> a = 0x80000000 then 0
            else word_of_int (sint a smod sint b))"
    unfolding a [symmetric] b [symmetric]
    by (auto simp add: do_rem_def op_defs Let_def sint_eq_0_iff32 sint_eq_m1_iff32
          split: option.splits)
  have du: "reg_after (do_divu ir rv cycle pc) (rd ir) =
      Some (if b = 0 then NOT 0 else a div b)"
    unfolding a [symmetric] b [symmetric]
    by (simp add: do_divu_def op_defs Let_def split: option.splits)
  have ru: "reg_after (do_remu ir rv cycle pc) (rd ir) =
      Some (if b = 0 then a else a mod b)"
    unfolding a [symmetric] b [symmetric]
    by (simp add: do_remu_def op_defs Let_def split: option.splits)
  have zero: "reg_after (do_div ir rv cycle pc) (rd ir) = Some 0xFFFFFFFF \<and>
      reg_after (do_rem ir rv cycle pc) (rd ir) = Some a \<and>
      reg_after (do_divu ir rv cycle pc) (rd ir) = Some 0xFFFFFFFF \<and>
      reg_after (do_remu ir rv cycle pc) (rd ir) = Some a" if "b = 0"
    using that by (simp add: dv rm du ru)
  have overflow: "reg_after (do_div ir rv cycle pc) (rd ir) = Some 0x80000000 \<and>
      reg_after (do_rem ir rv cycle pc) (rd ir) = Some 0"
    if "a = 0x80000000 \<and> b = 0xFFFFFFFF"
    using that by (simp add: dv rm)
  have general: "map_option sint (reg_after (do_div ir rv cycle pc) (rd ir)) =
        Some (sgn (sint a) * sgn (sint b) * (\<bar>sint a\<bar> div \<bar>sint b\<bar>)) \<and>
      map_option sint (reg_after (do_rem ir rv cycle pc) (rd ir)) =
        Some (sint a - sint b * (sgn (sint a) * sgn (sint b) * (\<bar>sint a\<bar> div \<bar>sint b\<bar>)))"
    if h: "b \<noteq> 0 \<and> \<not> (a = 0x80000000 \<and> b = 0xFFFFFFFF)"
  proof -
    from h have nz: "sint b \<noteq> 0"
      by (simp add: sint_eq_0_iff32)
    from h have nov: "\<not> (sint a = - (2 ^ 31) \<and> sint b = - 1)"
      by (simp add: sint_min32 sint_eq_m1_iff32)
    have q: "sint (word_of_int (sint a sdiv sint b) :: u32) = sint a sdiv sint b"
      using sdiv_fits [OF sint_bounds32 [of a] nz nov]
      by (intro sint_word_of_int_fits) simp_all
    have r: "sint (word_of_int (sint a smod sint b) :: u32) = sint a smod sint b"
      using smod_fits [OF sint_bounds32 [of b] nz, of "sint a"]
      by (intro sint_word_of_int_fits) simp_all
    have "sint a smod sint b = sint a - sint b * (sint a sdiv sint b)"
      by (simp add: minus_mult_sdiv_eq_smod)
    with q r h show ?thesis
      by (auto simp add: dv rm signed_divide_int_def)
  qed
  have unsigned: "map_option uint (reg_after (do_divu ir rv cycle pc) (rd ir)) =
        Some (uint a div uint b) \<and>
      map_option uint (reg_after (do_remu ir rv cycle pc) (rd ir)) = Some (uint a mod uint b)"
    if "b \<noteq> 0"
    using that by (simp add: du ru uint_div uint_mod)
  from zero overflow general unsigned show ?thesis
    by (intro conjI impI) blast+
qed

text \<open>
  The hypotheses of the previous theorem at concrete inputs: 7 by 0, \<open>0x80000000\<close> by
  \<open>-1\<close>, and \<open>-8\<close> by 3 (quotient \<open>-2\<close>, remainder \<open>-2\<close>; unsigned \<open>0xFFFFFFF8\<close> by 3).
\<close>

theorem div_rem_special_cases_witness:
  "X (rv_with2 1 7 2 0) (rs1 (decoded rv_insn_div 3 1 2 0)) = 7 \<and>
   X (rv_with2 1 7 2 0) (rs2 (decoded rv_insn_div 3 1 2 0)) = 0 \<and>
   reg_after (do_div (decoded rv_insn_div 3 1 2 0) (rv_with2 1 7 2 0) 0 0) 3 = Some 0xFFFFFFFF \<and>
   reg_after (do_rem (decoded rv_insn_div 3 1 2 0) (rv_with2 1 7 2 0) 0 0) 3 = Some 7 \<and>
   X (rv_with2 1 0x80000000 2 0xFFFFFFFF) (rs1 (decoded rv_insn_div 3 1 2 0)) = 0x80000000 \<and>
   X (rv_with2 1 0x80000000 2 0xFFFFFFFF) (rs2 (decoded rv_insn_div 3 1 2 0)) = 0xFFFFFFFF \<and>
   reg_after (do_div (decoded rv_insn_div 3 1 2 0) (rv_with2 1 0x80000000 2 0xFFFFFFFF) 0 0) 3 =
     Some 0x80000000 \<and>
   reg_after (do_rem (decoded rv_insn_div 3 1 2 0) (rv_with2 1 0x80000000 2 0xFFFFFFFF) 0 0) 3 =
     Some 0 \<and>
   X (rv_with2 1 0xFFFFFFF8 2 3) (rs1 (decoded rv_insn_div 3 1 2 0)) = 0xFFFFFFF8 \<and>
   X (rv_with2 1 0xFFFFFFF8 2 3) (rs2 (decoded rv_insn_div 3 1 2 0)) = 3 \<and>
   (3 :: u32) \<noteq> 0 \<and> (0xFFFFFFF8 :: u32) \<noteq> 0x80000000 \<and>
   map_option sint (reg_after (do_div (decoded rv_insn_div 3 1 2 0)
     (rv_with2 1 0xFFFFFFF8 2 3) 0 0) 3) = Some (- 2) \<and>
   map_option sint (reg_after (do_rem (decoded rv_insn_div 3 1 2 0)
     (rv_with2 1 0xFFFFFFF8 2 3) 0 0) 3) = Some (- 2) \<and>
   map_option uint (reg_after (do_divu (decoded rv_insn_div 3 1 2 0)
     (rv_with2 1 0xFFFFFFF8 2 3) 0 0) 3) = Some 1431655762 \<and>
   map_option uint (reg_after (do_remu (decoded rv_insn_div 3 1 2 0)
     (rv_with2 1 0xFFFFFFF8 2 3) 0 0) 3) = Some 2"
proof -
  have x: "X (rv_with2 1 7 2 0) (rs1 (decoded rv_insn_div 3 1 2 0)) = 7"
    "X (rv_with2 1 7 2 0) (rs2 (decoded rv_insn_div 3 1 2 0)) = 0"
    "X (rv_with2 1 0x80000000 2 0xFFFFFFFF) (rs1 (decoded rv_insn_div 3 1 2 0)) = 0x80000000"
    "X (rv_with2 1 0x80000000 2 0xFFFFFFFF) (rs2 (decoded rv_insn_div 3 1 2 0)) = 0xFFFFFFFF"
    "X (rv_with2 1 0xFFFFFFF8 2 3) (rs1 (decoded rv_insn_div 3 1 2 0)) = 0xFFFFFFF8"
    "X (rv_with2 1 0xFFFFFFF8 2 3) (rs2 (decoded rv_insn_div 3 1 2 0)) = 3"
    by (simp_all add: rv_with2_def rv_reset_def)
  have v: "sgn (sint (0xFFFFFFF8 :: u32)) * sgn (sint (3 :: u32)) *
        (\<bar>sint (0xFFFFFFF8 :: u32)\<bar> div \<bar>sint (3 :: u32)\<bar>) = - 2"
    "uint (0xFFFFFFF8 :: u32) div uint (3 :: u32) = 1431655762"
    "uint (0xFFFFFFF8 :: u32) mod uint (3 :: u32) = 2"
    "sint (0xFFFFFFF8 :: u32) - sint (3 :: u32) * - 2 = - 2"
    by simp_all
  note a = div_rem_special_cases [OF x(1) x(2), of 0 0]
  note b = div_rem_special_cases [OF x(3) x(4), of 0 0]
  note c = div_rem_special_cases [OF x(5) x(6), of 0 0]
  have ne: "(3 :: u32) \<noteq> 0" "(0xFFFFFFF8 :: u32) \<noteq> 0x80000000"
    by simp_all
  have d: "rd (decoded rv_insn_div 3 1 2 0) = 3"
    by simp
  from a have "reg_after (do_div (decoded rv_insn_div 3 1 2 0) (rv_with2 1 7 2 0) 0 0) 3 =
      Some 0xFFFFFFFF"
    and "reg_after (do_rem (decoded rv_insn_div 3 1 2 0) (rv_with2 1 7 2 0) 0 0) 3 = Some 7"
    unfolding d by blast+
  moreover from b have "reg_after (do_div (decoded rv_insn_div 3 1 2 0)
      (rv_with2 1 0x80000000 2 0xFFFFFFFF) 0 0) 3 = Some 0x80000000"
    and "reg_after (do_rem (decoded rv_insn_div 3 1 2 0)
      (rv_with2 1 0x80000000 2 0xFFFFFFFF) 0 0) 3 = Some 0"
    unfolding d by blast+
  moreover from c ne have "map_option sint (reg_after (do_div (decoded rv_insn_div 3 1 2 0)
      (rv_with2 1 0xFFFFFFF8 2 3) 0 0) 3) = Some (- 2)"
    and "map_option sint (reg_after (do_rem (decoded rv_insn_div 3 1 2 0)
      (rv_with2 1 0xFFFFFFF8 2 3) 0 0) 3) = Some (- 2)"
    and "map_option uint (reg_after (do_divu (decoded rv_insn_div 3 1 2 0)
      (rv_with2 1 0xFFFFFFF8 2 3) 0 0) 3) = Some 1431655762"
    and "map_option uint (reg_after (do_remu (decoded rv_insn_div 3 1 2 0)
      (rv_with2 1 0xFFFFFFF8 2 3) 0 0) 3) = Some 2"
    unfolding d v by blast+
  ultimately show ?thesis
    using x ne by blast
qed

lemma bit_csrai_loop:
  "bit (csrai_loop msk sh i x) n =
     (bit x n \<or> (\<exists>j. i \<le> j \<and> j < sh \<and> bit (drop_bit j msk) n))"
proof (induction msk sh i x rule: csrai_loop.induct)
  case (1 msk sh i x)
  show ?case
  proof (cases "i < sh")
    case True
    have "(\<exists>j. i \<le> j \<and> j < sh \<and> bit (drop_bit j msk) n) =
          (bit (drop_bit i msk) n \<or> (\<exists>j. i + 1 \<le> j \<and> j < sh \<and> bit (drop_bit j msk) n))"
    proof
      assume "\<exists>j. i \<le> j \<and> j < sh \<and> bit (drop_bit j msk) n"
      then obtain j where j: "i \<le> j" "j < sh" "bit (drop_bit j msk) n"
        by blast
      show "bit (drop_bit i msk) n \<or> (\<exists>j. i + 1 \<le> j \<and> j < sh \<and> bit (drop_bit j msk) n)"
      proof (cases "j = i")
        case True
        with j show ?thesis by simp
      next
        case False
        with j have "i + 1 \<le> j" by simp
        with j show ?thesis by blast
      qed
    next
      assume "bit (drop_bit i msk) n \<or> (\<exists>j. i + 1 \<le> j \<and> j < sh \<and> bit (drop_bit j msk) n)"
      then show "\<exists>j. i \<le> j \<and> j < sh \<and> bit (drop_bit j msk) n"
      proof
        assume "bit (drop_bit i msk) n"
        with True show ?thesis by blast
      next
        assume "\<exists>j. i + 1 \<le> j \<and> j < sh \<and> bit (drop_bit j msk) n"
        then obtain j where "i + 1 \<le> j" "j < sh" "bit (drop_bit j msk) n"
          by blast
        then have "i \<le> j \<and> j < sh \<and> bit (drop_bit j msk) n"
          by simp
        then show ?thesis ..
      qed
    qed
    with True 1 show ?thesis
      by (subst csrai_loop.simps) (auto simp add: bit_or_iff)
  next
    case False
    then show ?thesis
      by (subst csrai_loop.simps) auto
  qed
qed

lemma bit_sign_bit: "bit (0x80000000 :: u32) k = (k = 31)"
proof -
  have m: "(0x80000000 :: u32) = push_bit 31 1"
    by simp
  have "bit (push_bit 31 (1 :: u32)) k = (k = 31)"
    by (simp only: bit_push_bit_iff bit_1_iff possible_bit_word) auto
  then show ?thesis
    unfolding m .
qed

lemma bit_sign_mask:
  "bit (drop_bit j (0x80000000 AND (x :: u32))) n = (n + j = 31 \<and> bit x 31)"
proof -
  have "bit (drop_bit j (0x80000000 AND x)) n = bit (0x80000000 AND x) (j + n)"
    by (simp only: bit_drop_bit_eq o_apply)
  also have "\<dots> = (bit (0x80000000 :: u32) (j + n) \<and> bit x (j + n))"
    by (rule bit_and_iff)
  also have "\<dots> = (j + n = 31 \<and> bit x (j + n))"
    by (simp only: bit_sign_bit)
  also have "\<dots> = (n + j = 31 \<and> bit x 31)"
    by (auto simp add: add.commute)
  finally show ?thesis .
qed

lemma csrai_loop_eq:
  assumes "sh < 32"
  shows "csrai_loop (0x80000000 AND x) sh 0 (drop_bit sh x) = signed_drop_bit sh x"
proof (rule bit_word_eqI)
  fix n
  assume n: "n < LENGTH(32)"
  have e: "(\<exists>j. 0 \<le> j \<and> j < sh \<and> n + j = 31 \<and> bit x 31) = (32 - sh \<le> n \<and> bit x 31)"
    using n assms by (auto intro: exI [of _ "31 - n"])
  have "bit (csrai_loop (0x80000000 AND x) sh 0 (drop_bit sh x)) n =
      (bit (drop_bit sh x) n \<or> (32 - sh \<le> n \<and> bit x 31))"
    by (simp only: bit_csrai_loop bit_sign_mask e)
  also have "\<dots> = bit (signed_drop_bit sh x) n"
    using n assms
    by (auto simp add: bit_signed_drop_bit_iff bit_drop_bit_eq dest: bit_imp_le_length)
  finally show "bit (csrai_loop (0x80000000 AND x) sh 0 (drop_bit sh x)) n =
      bit (signed_drop_bit sh x) n" .
qed

lemma unat_shamt:
  assumes sh: "sh < 32"
  shows "unat ((of_nat sh :: u32) AND 0x1f) = sh"
proof -
  have m: "(0x1f :: u32) = mask 5"
    by (simp add: mask_eq_exp_minus_1)
  have u: "unat (of_nat sh :: u32) = sh"
    using sh by (simp add: unat_of_nat)
  have "unat ((of_nat sh :: u32) AND mask 5) = unat (take_bit 5 (of_nat sh :: u32))"
    by (simp only: take_bit_eq_mask)
  also have "\<dots> = take_bit 5 (unat (of_nat sh :: u32))"
    by (rule unsigned_take_bit_eq)
  also have "\<dots> = sh"
    unfolding u using sh by (simp add: take_bit_eq_mod)
  finally show ?thesis
    unfolding m .
qed

text \<open>
  Claim C8. For a shift amount below 32, C.SRAI (a logical right shift followed by the
  loop that ORs in the sign-mask bits) leaves in \<open>X[rs1]\<close> the arithmetic right shift of its
  old value, whose signed reading is the old signed reading divided by \<open>2 ^ shamt\<close>
  rounded down; the register file afterwards is the one its 32-bit expansion
  \<^verbatim>\<open>SRAI rd', rd', shamt\<close> leaves.
\<close>

theorem csrai_is_arithmetic_shift:
  assumes "shamt ir < 32"
  shows "reg_after (do_csrai ir rv cycle pc) (rs1 ir) =
           Some (signed_drop_bit (shamt ir) (X rv (rs1 ir))) \<and>
         map_option sint (reg_after (do_csrai ir rv cycle pc) (rs1 ir)) =
           Some (sint (X rv (rs1 ir)) div 2 ^ shamt ir) \<and>
         regs_after (do_csrai ir rv cycle pc) =
           regs_after (do_srai (ir\<lparr>opcode := rv_insn_srai, rd := rs1 ir,
                                    imm := of_nat (shamt ir)\<rparr>) rv cycle pc)"
proof -
  have c: "regs_after (do_csrai ir rv cycle pc) =
      Some ((X rv)(rs1 ir := signed_drop_bit (shamt ir) (X rv (rs1 ir))))"
    by (simp add: do_csrai_def op_defs Let_def csrai_loop_eq [OF assms] split: option.splits)
  have s: "regs_after (do_srai (ir\<lparr>opcode := rv_insn_srai, rd := rs1 ir,
                                    imm := of_nat (shamt ir)\<rparr>) rv cycle pc) =
      Some ((X rv)(rs1 ir := signed_drop_bit (shamt ir) (X rv (rs1 ir))))"
    by (simp add: do_srai_def shift_code_def shift_func_def op_defs Let_def unat_shamt [OF assms]
          split: option.splits)
  from c have r: "reg_after (do_csrai ir rv cycle pc) (rs1 ir) =
           Some (signed_drop_bit (shamt ir) (X rv (rs1 ir)))"
    by (auto simp add: regs_after_def reg_after_def)
  have "sint (signed_drop_bit (shamt ir) (X rv (rs1 ir))) = sint (X rv (rs1 ir)) div 2 ^ shamt ir"
    by (simp add: sint_signed_drop_bit_eq drop_bit_eq_div)
  with r c s show ?thesis
    by simp
qed

text \<open>
  The hypothesis of the previous theorem at a concrete input: \<open>0x80000010\<close> shifted by 4.
\<close>

theorem csrai_is_arithmetic_shift_witness:
  "shamt ((decoded rv_insn_csrai 0 8 0 0)\<lparr>shamt := 4\<rparr>) < 32 \<and>
   reg_after (do_csrai ((decoded rv_insn_csrai 0 8 0 0)\<lparr>shamt := 4\<rparr>)
     (rv_with 8 0x80000010) 0 0) 8 = Some 0xF8000001"
proof -
  have h: "shamt ((decoded rv_insn_csrai 0 8 0 0)\<lparr>shamt := 4\<rparr>) < 32"
    by simp
  have v: "signed_drop_bit 4 (0x80000010 :: u32) = 0xF8000001"
    by (simp add: signed_drop_bit_word_numeral)
  from csrai_is_arithmetic_shift [OF h, of "rv_with 8 0x80000010" 0 0] h show ?thesis
    by (simp add: v)
qed

section \<open>Properties of the hashed set\<close>

lemma set_has_loop_eq:
  "set_has_loop slots row key count =
     (case set_add_loop slots row key count of
        Inl f \<Rightarrow> Inl f
      | Inr None \<Rightarrow> Inr True
      | Inr (Some n) \<Rightarrow> Inr False)"
proof (induction slots row key count rule: set_add_loop.induct)
  case (1 slots row key count)
  then show ?case
    by (subst set_has_loop.simps, subst set_add_loop.simps) simp
qed

lemma set_add_loop_found:
  "set_add_loop slots row key count = Inr None \<Longrightarrow> key \<noteq> 0"
proof (induction slots row key count rule: set_add_loop.induct)
  case (1 slots row key count)
  show ?case
  proof (cases "count < slots \<and> row count \<noteq> 0 \<and> row count \<noteq> key")
    case True
    with "1.prems" have "set_add_loop slots row key (count + 1) = Inr None"
      by (subst (asm) set_add_loop.simps) simp
    with True "1.IH" show ?thesis
      by simp
  next
    case False
    with "1.prems" show ?thesis
      by (subst (asm) set_add_loop.simps) (auto split: if_splits)
  qed
qed

lemma set_add_loop_free:
  "set_add_loop slots row key count = Inr (Some n) \<Longrightarrow>
     count \<le> n \<and> n < slots \<and> row n = 0 \<and>
     (\<forall>i. count \<le> i \<and> i < n \<longrightarrow> row i \<noteq> 0 \<and> row i \<noteq> key)"
proof (induction slots row key count rule: set_add_loop.induct)
  case (1 slots row key count)
  show ?case
  proof (cases "count < slots \<and> row count \<noteq> 0 \<and> row count \<noteq> key")
    case True
    with "1.prems" have "set_add_loop slots row key (count + 1) = Inr (Some n)"
      by (subst (asm) set_add_loop.simps) simp
    with True "1.IH" have ih: "count + 1 \<le> n \<and> n < slots \<and> row n = 0 \<and>
        (\<forall>i. count + 1 \<le> i \<and> i < n \<longrightarrow> row i \<noteq> 0 \<and> row i \<noteq> key)"
      by simp
    have "row i \<noteq> 0 \<and> row i \<noteq> key" if "count \<le> i \<and> i < n" for i
    proof (cases "i = count")
      case True
      with \<open>count < slots \<and> row count \<noteq> 0 \<and> row count \<noteq> key\<close> show ?thesis by simp
    next
      case False
      with that have "count + 1 \<le> i \<and> i < n" by simp
      with ih show ?thesis by blast
    qed
    with ih show ?thesis by simp
  next
    case False
    with "1.prems" show ?thesis
      by (subst (asm) set_add_loop.simps) (auto split: if_splits)
  qed
qed

lemma set_add_loop_hit:
  "count \<le> n \<Longrightarrow> n < slots \<Longrightarrow> row n = key \<Longrightarrow> key \<noteq> 0 \<Longrightarrow>
   (\<forall>i. count \<le> i \<and> i < n \<longrightarrow> row i \<noteq> 0 \<and> row i \<noteq> key) \<Longrightarrow>
   set_add_loop slots row key count = Inr None"
proof (induction slots row key count rule: set_add_loop.induct)
  case (1 slots row key count)
  show ?case
  proof (cases "count = n")
    case True
    with "1.prems" show ?thesis
      by (subst set_add_loop.simps) simp
  next
    case False
    with "1.prems" have c: "count < slots" "row count \<noteq> 0" "row count \<noteq> key" "count + 1 \<le> n"
      by auto
    with "1.prems" "1.IH" have "set_add_loop slots row key (count + 1) = Inr None"
      by simp
    with c show ?thesis
      by (subst set_add_loop.simps) simp
  qed
qed

lemma set_add_loop_returns:
  "count \<le> n \<Longrightarrow> n < slots \<Longrightarrow> row n = 0 \<Longrightarrow>
   \<exists>r. set_add_loop slots row key count = Inr r"
proof (induction slots row key count rule: set_add_loop.induct)
  case (1 slots row key count)
  show ?case
  proof (cases "count < slots \<and> row count \<noteq> 0 \<and> row count \<noteq> key")
    case True
    with "1.prems" have "count \<noteq> n" by auto
    with "1.prems" have "count + 1 \<le> n" by simp
    with True "1.prems" "1.IH" have "\<exists>r. set_add_loop slots row key (count + 1) = Inr r"
      by simp
    with True show ?thesis
      by (subst set_add_loop.simps) simp
  next
    case False
    with "1.prems" show ?thesis
      by (subst set_add_loop.simps) auto
  qed
qed

text \<open>
  Claim C9. Whenever \<^verbatim>\<open>set_add(set, k)\<close> returns: for a nonzero key \<open>k\<close>, \<^verbatim>\<open>set_has\<close> on
  the resulting set returns true, and \<^verbatim>\<open>set_add\<close> returned false exactly when \<^verbatim>\<open>set_has\<close>
  returned true on the set before, in which case the set is unchanged; for the key 0,
  \<^verbatim>\<open>set_add\<close> returned true and \<^verbatim>\<open>set_has(set, 0)\<close> on the resulting set returns false.
  On no set does \<^verbatim>\<open>set_has(set, 0)\<close> return true. Moreover \<^verbatim>\<open>set_add\<close> does return when
  the key's bucket has a zero slot. (\<open>slots \<le> 255\<close> is where the counter of the model and
  the \<^verbatim>\<open>uint8_t\<close> counter of the source agree.)
\<close>

theorem set_add_then_has:
  assumes "slots \<le> 255"
  shows
  "(set_add h slots s k = Inr (b, s') \<and> k \<noteq> 0 \<longrightarrow>
      set_has h slots s' k = Inr True \<and>
      (\<not> b \<longleftrightarrow> set_has h slots s k = Inr True) \<and>
      (\<not> b \<longrightarrow> s' = s)) \<and>
   (set_add h slots s 0 = Inr (b, s') \<longrightarrow>
      b \<and> set_has h slots s' 0 = Inr False) \<and>
   set_has h slots s 0 \<noteq> Inr True \<and>
   ((\<exists>n < slots. table s (h k) n = 0) \<longrightarrow> (\<exists>r. set_add h slots s k = Inr r))"
proof -
  have nonzero: "set_has h slots s' k = Inr True \<and>
      (\<not> b \<longleftrightarrow> set_has h slots s k = Inr True) \<and> (\<not> b \<longrightarrow> s' = s)"
    if add: "set_add h slots s k = Inr (b, s')" and k: "k \<noteq> 0"
  proof (cases "set_add_loop slots (table s (h k)) k 0")
    case (Inl f)
    with add show ?thesis
      by (simp add: set_add_def Let_def)
  next
    case (Inr r)
    show ?thesis
    proof (cases r)
      case None
      with Inr add have "b = False" "s' = s"
        by (simp_all add: set_add_def Let_def)
      with Inr None show ?thesis
        by (simp add: set_has_def set_has_loop_eq)
    next
      case (Some n)
      with Inr add have b: "b = True"
        and s': "s' = s\<lparr>table := (table s)(h k := (table s (h k))(n := k))\<rparr>"
        by (simp_all add: set_add_def Let_def)
      from set_add_loop_free [of slots "table s (h k)" k 0 n] Inr Some
      have n: "n < slots" "table s (h k) n = 0"
        "\<forall>i. 0 \<le> i \<and> i < n \<longrightarrow> table s (h k) i \<noteq> 0 \<and> table s (h k) i \<noteq> k"
        by simp_all
      have "set_add_loop slots ((table s (h k))(n := k)) k 0 = Inr None"
        using n k by (intro set_add_loop_hit [where n = n]) auto
      then have "set_has h slots s' k = Inr True"
        by (simp add: set_has_def set_has_loop_eq s')
      moreover have "set_has h slots s k \<noteq> Inr True"
        using Inr Some by (simp add: set_has_def set_has_loop_eq)
      ultimately show ?thesis
        using b by simp
    qed
  qed
  have never: "set_has h slots t 0 \<noteq> Inr True" for t
    using set_add_loop_found [of slots "table t (h 0)" 0 0]
    by (auto simp add: set_has_def set_has_loop_eq split: sum.splits option.splits)
  have zero: "b \<and> set_has h slots s' 0 = Inr False"
    if add: "set_add h slots s 0 = Inr (b, s')"
  proof (cases "set_add_loop slots (table s (h 0)) 0 0")
    case (Inl f)
    with add show ?thesis
      by (simp add: set_add_def Let_def)
  next
    case (Inr r)
    with set_add_loop_found [of slots "table s (h 0)" 0 0] obtain n where r: "r = Some n"
      by (cases r) auto
    from set_add_loop_free [of slots "table s (h 0)" 0 0 n] Inr r
    have "table s (h 0) n = 0"
      by simp
    then have "(table s (h 0))(n := 0) = table s (h 0)"
      by (simp add: fun_upd_idem)
    with Inr r add have "b = True" "table s' (h 0) = table s (h 0)"
      by (simp_all add: set_add_def Let_def)
    with Inr r show ?thesis
      by (simp add: set_has_def set_has_loop_eq)
  qed
  have returns: "\<exists>r. set_add h slots s k = Inr r" if "\<exists>n < slots. table s (h k) n = 0"
  proof -
    from that obtain n where "n < slots" "table s (h k) n = 0"
      by blast
    with set_add_loop_returns [of 0 n slots "table s (h k)" k]
    obtain r where "set_add_loop slots (table s (h k)) k 0 = Inr r"
      by auto
    then show ?thesis
      by (cases r) (auto simp add: set_add_def Let_def)
  qed
  from nonzero zero never returns show ?thesis
    by (intro conjI impI) blast+
qed


text \<open>
  The hypotheses of the previous theorem at concrete inputs: the keys 5 and 0 added to
  the set after reset, with 32 slots per bucket.
\<close>

theorem set_add_then_has_witness:
  "(32 :: nat) \<le> 255 \<and>
   set_add example_hash 32 empty_set 5 =
     Inr (True, empty_set\<lparr>table := (table empty_set)(5 := (table empty_set 5)(0 := 5))\<rparr>) \<and>
   (5 :: u32) \<noteq> 0 \<and>
   set_has example_hash 32
     (empty_set\<lparr>table := (table empty_set)(5 := (table empty_set 5)(0 := 5))\<rparr>) 5 = Inr True \<and>
   set_has example_hash 32 empty_set 5 \<noteq> Inr True \<and>
   set_add example_hash 32 empty_set 0 = Inr (True, empty_set) \<and>
   set_has example_hash 32 empty_set 0 = Inr False"
proof -
  have le: "(32 :: nat) \<le> 255"
    by simp
  have h: "example_hash 5 = 5" "example_hash 0 = 0"
    by (simp_all add: example_hash_def)
  have t: "table empty_set i j = 0" for i j
    by (simp add: empty_set_def set_reset_def)
  have a5: "set_add example_hash 32 empty_set 5 =
     Inr (True, empty_set\<lparr>table := (table empty_set)(5 := (table empty_set 5)(0 := 5))\<rparr>)"
    by (simp add: set_add_def Let_def h t set_add_loop.simps [of _ _ _ 0])
  have "(table empty_set)(0 := (table empty_set 0)(0 := 0)) = table empty_set"
    by (simp add: fun_eq_iff t)
  then have a0: "set_add example_hash 32 empty_set 0 = Inr (True, empty_set)"
    by (simp add: set_add_def Let_def h t set_add_loop.simps [of _ _ _ 0])
  note x = set_add_then_has [OF le, of example_hash empty_set 5 True
      "empty_set\<lparr>table := (table empty_set)(5 := (table empty_set 5)(0 := 5))\<rparr>"]
  note y = set_add_then_has [OF le, of example_hash empty_set 0 True empty_set]
  have "set_has example_hash 32
     (empty_set\<lparr>table := (table empty_set)(5 := (table empty_set 5)(0 := 5))\<rparr>) 5 = Inr True"
    and "set_has example_hash 32 empty_set 5 \<noteq> Inr True"
    using x a5 by auto
  moreover have "set_has example_hash 32 empty_set 0 = Inr False"
    using y a0 by blast
  ultimately show ?thesis
    using le a5 a0 by simp
qed

section \<open>Properties of path sanitization\<close>

subsection \<open>The loops on the buffer\<close>

lemma backtrack_le: "backtrack ret dotdot w \<le> w"
proof (induction ret dotdot w rule: backtrack.induct)
  case (1 ret dotdot w)
  show ?case
  proof (cases "w > dotdot \<and> ret ! w \<noteq> CHR ''/''")
    case True
    with 1 have "backtrack ret dotdot (w - 1) \<le> w - 1"
      by simp
    with True show ?thesis
      by (subst backtrack.simps) simp
  next
    case False
    then show ?thesis
      by (subst backtrack.simps) auto
  qed
qed

lemma backtrack_cong:
  "(\<forall>i \<le> w. ret ! i = ret' ! i) \<Longrightarrow> backtrack ret dotdot w = backtrack ret' dotdot w"
proof (induction ret dotdot w rule: backtrack.induct)
  case (1 ret dotdot w)
  show ?case
  proof (cases "w > dotdot \<and> ret ! w \<noteq> CHR ''/''")
    case True
    with 1 have "backtrack ret dotdot (w - 1) = backtrack ret' dotdot (w - 1)"
      by simp
    with True "1.prems" show ?thesis
      by (subst backtrack.simps, subst (2) backtrack.simps) simp
  next
    case False
    with "1.prems" show ?thesis
      by (subst backtrack.simps, subst (2) backtrack.simps) auto
  qed
qed

lemma backtrack_take: "w < k \<Longrightarrow> backtrack (take k ret) dotdot w = backtrack ret dotdot w"
  by (rule backtrack_cong) simp

lemma take_update_snoc: "w < length ret \<Longrightarrow> take (Suc w) (ret[w := c]) = take w ret @ [c]"
  by (simp add: take_Suc_conv_app_nth)

lemma copy_element_eq:
  assumes "n \<le> length input" and "r \<le> n" and "w + (n - r) \<le> length ret"
  shows "\<exists>ret'. copy_element input n r w ret =
           (r + length (takeWhile (\<lambda>x. x \<noteq> CHR ''/'') (drop r (take n input))),
            w + length (takeWhile (\<lambda>x. x \<noteq> CHR ''/'') (drop r (take n input))), ret') \<and>
         take (w + length (takeWhile (\<lambda>x. x \<noteq> CHR ''/'') (drop r (take n input)))) ret' =
           take w ret @ takeWhile (\<lambda>x. x \<noteq> CHR ''/'') (drop r (take n input)) \<and>
         length ret' = length ret"
  using assms
proof (induction input n r w ret rule: copy_element.induct)
  case (1 input n r w ret)
  show ?case
  proof (cases "r < n \<and> input ! r \<noteq> CHR ''/''")
    case True
    with "1.prems" have d: "drop r (take n input) = input ! r # drop (r + 1) (take n input)"
      by (simp add: Cons_nth_drop_Suc [symmetric])
    from True "1.prems" have w: "w < length ret"
      by arith
    from True "1.prems" have "r + 1 \<le> n"
      by simp
    moreover from True "1.prems" have "w + 1 + (n - (r + 1)) \<le> length ret"
      by arith
    then have "w + 1 + (n - (r + 1)) \<le> length (ret[w := input ! r])"
      by simp
    ultimately have "r + 1 \<le> n" "w + 1 + (n - (r + 1)) \<le> length (ret[w := input ! r])"
      by blast+
    with True "1.IH" "1.prems"(1) obtain ret' where
      c: "copy_element input n (r + 1) (w + 1) (ret[w := input ! r]) =
           (r + 1 + length (takeWhile (\<lambda>x. x \<noteq> CHR ''/'') (drop (r + 1) (take n input))),
            w + 1 + length (takeWhile (\<lambda>x. x \<noteq> CHR ''/'') (drop (r + 1) (take n input))), ret')"
      and t: "take (w + 1 + length (takeWhile (\<lambda>x. x \<noteq> CHR ''/'') (drop (r + 1) (take n input)))) ret' =
           take (w + 1) (ret[w := input ! r]) @
           takeWhile (\<lambda>x. x \<noteq> CHR ''/'') (drop (r + 1) (take n input))"
      and l: "length ret' = length (ret[w := input ! r])"
      by blast
    from True c have "copy_element input n r w ret =
           (r + 1 + length (takeWhile (\<lambda>x. x \<noteq> CHR ''/'') (drop (r + 1) (take n input))),
            w + 1 + length (takeWhile (\<lambda>x. x \<noteq> CHR ''/'') (drop (r + 1) (take n input))), ret')"
      by (subst copy_element.simps) simp
    with t l w True show ?thesis
      unfolding d by (simp add: take_update_snoc)
  next
    case False
    have "takeWhile (\<lambda>x. x \<noteq> CHR ''/'') (drop r (take n input)) = []"
    proof (cases "r < n")
      case True
      with False "1.prems" have "drop r (take n input) = CHR ''/'' # drop (r + 1) (take n input)"
        by (simp add: Cons_nth_drop_Suc [symmetric])
      then show ?thesis by simp
    next
      case False
      with "1.prems" show ?thesis by simp
    qed
    with False show ?thesis
      by (subst copy_element.simps) auto
  qed
qed


subsection \<open>The main loop computes \<open>clean_loop\<close>\<close>

lemma clean_loop_slash:
  "clean_loop is_root dotdot out (CHR ''/'' # cs) = clean_loop is_root dotdot out cs"
  by (simp add: clean_loop.simps(2))

lemma clean_loop_dot:
  "cs = [] \<or> hd cs = CHR ''/'' \<Longrightarrow>
   clean_loop is_root dotdot out (CHR ''.'' # cs) = clean_loop is_root dotdot out cs"
  by (simp add: clean_loop.simps(2))

lemma clean_loop_dotdot:
  "cs = [] \<or> hd cs = CHR ''/'' \<Longrightarrow>
   clean_loop is_root dotdot out (CHR ''.'' # CHR ''.'' # cs) =
     (if length out > dotdot then
        clean_loop is_root dotdot (take (backtrack out dotdot (length out - 1)) out) cs
      else if \<not> is_root then
        clean_loop is_root (length out + length (dotdot_sep out) + 2)
          (out @ dotdot_sep out @ [CHR ''.'', CHR ''.'']) cs
      else clean_loop is_root dotdot out cs)"
  by (simp add: clean_loop.simps(2))

lemma clean_loop_element:
  assumes a: "c \<noteq> CHR ''/''"
    and b: "\<not> (c = CHR ''.'' \<and> (cs = [] \<or> hd cs = CHR ''/''))"
    and c: "\<not> (c = CHR ''.'' \<and> hd cs = CHR ''.'' \<and> (tl cs = [] \<or> hd (tl cs) = CHR ''/''))"
  shows "clean_loop is_root dotdot out (c # cs) =
     clean_loop is_root dotdot
       (out @ path_sep is_root out @ takeWhile (\<lambda>x. x \<noteq> CHR ''/'') (c # cs))
       (dropWhile (\<lambda>x. x \<noteq> CHR ''/'') (c # cs))"
  by (subst clean_loop.simps(2)) (simp only: if_not_P [OF a] if_not_P [OF b] if_not_P [OF c])

lemma rest_Cons:
  "n \<le> length input \<Longrightarrow> k < n \<Longrightarrow>
   drop k (take n input) = input ! k # drop (k + 1) (take n input)"
  by (simp add: Cons_nth_drop_Suc [symmetric])

lemma rest_end:
  "n \<le> length input \<Longrightarrow> k \<le> n \<Longrightarrow>
   (drop k (take n input) = [] \<or> hd (drop k (take n input)) = CHR ''/'') =
   (k = n \<or> input ! k = CHR ''/'')"
proof (cases "k < n")
  case True
  assume "n \<le> length input"
  from rest_Cons [OF this True] True show ?thesis
    by simp
next
  case False
  assume "n \<le> length input" "k \<le> n"
  with False show ?thesis
    by simp
qed

lemma path_loop_clean_loop:
  assumes "n \<le> length input" and "r \<le> n" and "w \<le> r"
    and "w = r \<longrightarrow> r = n \<or> input ! r = CHR ''/'' \<or> w = length (path_base is_root)"
    and "length ret = n + 1"
  shows "take (fst (path_loop input n is_root r w dotdot ret))
              (snd (path_loop input n is_root r w dotdot ret)) =
           clean_loop is_root dotdot (take w ret) (drop r (take n input)) \<and>
         fst (path_loop input n is_root r w dotdot ret) \<le> n \<and>
         length (snd (path_loop input n is_root r w dotdot ret)) = n + 1"
  using assms
proof (induction input n is_root r w dotdot ret rule: path_loop.induct)
  case (1 input n is_root r w dotdot ret)
  note n = \<open>n \<le> length input\<close> and r = \<open>r \<le> n\<close> and w = \<open>w \<le> r\<close>
    and e = \<open>w = r \<longrightarrow> r = n \<or> input ! r = CHR ''/'' \<or> w = length (path_base is_root)\<close>
    and l = \<open>length ret = n + 1\<close>
  from w r l have lw: "length (take w ret) = w"
    by simp
  show ?case
  proof (cases "r < n")
    case False
    with r have "r = n"
      by simp
    have pl: "path_loop input n is_root r w dotdot ret = (w, ret)"
      using False by (subst path_loop.simps) simp
    from \<open>r = n\<close> n w l show ?thesis
      unfolding pl by simp
  next
    case rn: True
    note d = rest_Cons [OF n rn]
    show ?thesis
    proof (cases "input ! r = CHR ''/''")
      case True
      have pl: "path_loop input n is_root r w dotdot ret =
          path_loop input n is_root (r + 1) w dotdot ret"
        using rn True by (subst path_loop.simps) simp
      have cl: "clean_loop is_root dotdot (take w ret) (drop r (take n input)) =
          clean_loop is_root dotdot (take w ret) (drop (r + 1) (take n input))"
        unfolding d True by (rule clean_loop_slash)
      have "take (fst (path_loop input n is_root (r + 1) w dotdot ret))
              (snd (path_loop input n is_root (r + 1) w dotdot ret)) =
           clean_loop is_root dotdot (take w ret) (drop (r + 1) (take n input)) \<and>
         fst (path_loop input n is_root (r + 1) w dotdot ret) \<le> n \<and>
         length (snd (path_loop input n is_root (r + 1) w dotdot ret)) = n + 1"
        by (rule "1.IH"(1)) (use rn True n w l in simp_all)
      then show ?thesis
        unfolding pl cl .
    next
      case ns: False
      show ?thesis
      proof (cases "input ! r = CHR ''.'' \<and> (r + 1 = n \<or> input ! (r + 1) = CHR ''/'')")
        case True
        have pl: "path_loop input n is_root r w dotdot ret =
            path_loop input n is_root (r + 1) w dotdot ret"
          using rn ns True by (subst path_loop.simps) simp
        from rn have "r + 1 \<le> n"
          by simp
        from rest_end [OF n this] True
        have "drop (r + 1) (take n input) = [] \<or> hd (drop (r + 1) (take n input)) = CHR ''/''"
          by simp
        with True have cl: "clean_loop is_root dotdot (take w ret) (drop r (take n input)) =
            clean_loop is_root dotdot (take w ret) (drop (r + 1) (take n input))"
          unfolding d by (simp add: clean_loop_dot)
        have "take (fst (path_loop input n is_root (r + 1) w dotdot ret))
                (snd (path_loop input n is_root (r + 1) w dotdot ret)) =
             clean_loop is_root dotdot (take w ret) (drop (r + 1) (take n input)) \<and>
           fst (path_loop input n is_root (r + 1) w dotdot ret) \<le> n \<and>
           length (snd (path_loop input n is_root (r + 1) w dotdot ret)) = n + 1"
          by (rule "1.IH"(2)) (use rn ns True n w l in simp_all)
        then show ?thesis
          unfolding pl cl .
      next
        case nd: False
        show ?thesis
        proof (cases "input ! r = CHR ''.'' \<and> input ! (r + 1) = CHR ''.'' \<and>
                      (r + 2 = n \<or> input ! (r + 2) = CHR ''/'')")
          case dd: True
          with nd rn have r1: "r + 1 < n"
            by auto
          then have r2: "r + 2 \<le> n"
            by simp
          from rest_Cons [OF n r1] have d1:
            "drop (r + 1) (take n input) = input ! (r + 1) # drop (r + 2) (take n input)"
            by (simp add: numeral_2_eq_2)
          from rest_end [OF n r2] dd
          have fin: "drop (r + 2) (take n input) = [] \<or>
                     hd (drop (r + 2) (take n input)) = CHR ''/''"
            by simp
          have rw: "drop r (take n input) =
              CHR ''.'' # CHR ''.'' # drop (r + 2) (take n input)"
            using d d1 dd by simp
          note cl = clean_loop_dotdot [OF fin, of is_root dotdot "take w ret", folded rw]
          show ?thesis
          proof (cases "w > dotdot")
            case True
            have pl: "path_loop input n is_root r w dotdot ret =
                path_loop input n is_root (r + 2) (backtrack ret dotdot (w - 1)) dotdot ret"
              using rn ns nd dd True by (subst path_loop.simps) simp
            let ?b = "backtrack ret dotdot (w - 1)"
            from True have "w - 1 < w"
              by simp
            then have bt: "backtrack (take w ret) dotdot (w - 1) = ?b"
              by (rule backtrack_take)
            from backtrack_le [of ret dotdot "w - 1"] True have b: "?b < w"
              by simp
            then have tk: "take ?b (take w ret) = take ?b ret"
              by (simp add: min_def)
            have "take (fst (path_loop input n is_root (r + 2) ?b dotdot ret))
                    (snd (path_loop input n is_root (r + 2) ?b dotdot ret)) =
                 clean_loop is_root dotdot (take ?b ret) (drop (r + 2) (take n input)) \<and>
               fst (path_loop input n is_root (r + 2) ?b dotdot ret) \<le> n \<and>
               length (snd (path_loop input n is_root (r + 2) ?b dotdot ret)) = n + 1"
              by (rule "1.IH"(3)) (use rn ns nd dd True n w l b r2 in simp_all)
            with True show ?thesis
              unfolding pl cl lw bt tk by simp
          next
            case nb: False
            show ?thesis
            proof (cases is_root)
              case True
              have pl: "path_loop input n is_root r w dotdot ret =
                  path_loop input n is_root (r + 2) w dotdot ret"
                using rn ns nd dd nb True by (subst path_loop.simps) simp
              have "take (fst (path_loop input n is_root (r + 2) w dotdot ret))
                      (snd (path_loop input n is_root (r + 2) w dotdot ret)) =
                   clean_loop is_root dotdot (take w ret) (drop (r + 2) (take n input)) \<and>
                 fst (path_loop input n is_root (r + 2) w dotdot ret) \<le> n \<and>
                 length (snd (path_loop input n is_root (r + 2) w dotdot ret)) = n + 1"
                by (rule "1.IH"(5)) (use rn ns nd dd nb True n w l r2 in simp_all)
              with nb True show ?thesis
                unfolding pl cl lw by simp
            next
              case nr: False
              define w1 where "w1 = (if 0 < w then w + 1 else w)"
              define ret1 where "ret1 = (if 0 < w then ret[w := CHR ''/''] else ret)"
              define ret3 where "ret3 = (ret1[w1 := CHR ''.''])[w1 + 1 := CHR ''.'']"
              have pl: "path_loop input n is_root r w dotdot ret =
                  path_loop input n is_root (r + 2) (w1 + 2) (w1 + 2) ret3"
                using rn ns nd dd nb nr
                by (subst path_loop.simps) (simp add: w1_def ret1_def ret3_def Let_def)
              from nr have base0: "length (path_base is_root) = 0"
                by (simp add: path_base_def)
              from e rn ns base0 w have w1r: "w1 \<le> r"
                by (auto simp add: w1_def)
              with r1 l have b1: "w1 + 1 < length ret"
                by simp
              have l1: "length ret1 = length ret"
                by (simp add: ret1_def)
              have w1s: "w1 = w + length (dotdot_sep (take w ret))"
                unfolding w1_def dotdot_sep_def lw by simp
              have t1: "take w1 ret1 = take w ret @ dotdot_sep (take w ret)"
              proof (cases "0 < w")
                case True
                with w r l have "w < length ret"
                  by simp
                with True show ?thesis
                  unfolding w1_def ret1_def dotdot_sep_def lw by (simp add: take_update_snoc)
              next
                case False
                then show ?thesis
                  unfolding w1_def ret1_def dotdot_sep_def lw by simp
              qed
              have "take (Suc (Suc w1)) ret3 =
                  take (Suc w1) (ret1[w1 := CHR ''.'']) @ [CHR ''.'']"
                unfolding ret3_def using b1 l1 by (simp add: take_update_snoc)
              also have "take (Suc w1) (ret1[w1 := CHR ''.'']) = take w1 ret1 @ [CHR ''.'']"
                using b1 l1 by (simp add: take_update_snoc)
              finally have t3: "take (w1 + 2) ret3 =
                  take w ret @ dotdot_sep (take w ret) @ [CHR ''.'', CHR ''.'']"
                by (simp add: t1)
              have l3: "length ret3 = n + 1"
                by (simp add: ret3_def l1 l)
              have "take (fst (path_loop input n is_root (r + 2) (w1 + 2) (w1 + 2) ret3))
                      (snd (path_loop input n is_root (r + 2) (w1 + 2) (w1 + 2) ret3)) =
                   clean_loop is_root (w1 + 2) (take (w1 + 2) ret3)
                     (drop (r + 2) (take n input)) \<and>
                 fst (path_loop input n is_root (r + 2) (w1 + 2) (w1 + 2) ret3) \<le> n \<and>
                 length (snd (path_loop input n is_root (r + 2) (w1 + 2) (w1 + 2) ret3)) = n + 1"
              proof (rule "1.IH"(4) [where xa = w1 and y = ret1])
                show "(w1, ret1) = (if 0 < w then (w + 1, ret[w := CHR ''/'']) else (w, ret))"
                  by (simp add: w1_def ret1_def)
                show "ret3 = (ret1[w1 := CHR ''.''])[w1 + 1 := CHR ''.'']"
                  by (simp add: ret3_def)
              qed (use rn ns nd dd nb nr n l3 r2 w1r in auto)
              then have "take (fst (path_loop input n is_root (r + 2) (w1 + 2) (w1 + 2) ret3))
                      (snd (path_loop input n is_root (r + 2) (w1 + 2) (w1 + 2) ret3)) =
                   clean_loop is_root (w1 + 2)
                     (take w ret @ dotdot_sep (take w ret) @ [CHR ''.'', CHR ''.''])
                     (drop (r + 2) (take n input)) \<and>
                 fst (path_loop input n is_root (r + 2) (w1 + 2) (w1 + 2) ret3) \<le> n \<and>
                 length (snd (path_loop input n is_root (r + 2) (w1 + 2) (w1 + 2) ret3)) = n + 1"
                unfolding t3 .
              moreover have "w + length (dotdot_sep (take w ret)) + 2 = w1 + 2"
                by (simp add: w1s)
              ultimately show ?thesis
                unfolding pl cl lw using nb nr by simp
            qed
          qed
        next
          case ne: False
          define w1 where "w1 = w + length (path_sep is_root (take w ret))"
          define ret1 where "ret1 =
            (if (is_root \<and> w \<noteq> 1) \<or> (\<not> is_root \<and> w \<noteq> 0) then ret[w := CHR ''/''] else ret)"
          let ?e = "takeWhile (\<lambda>x. x \<noteq> CHR ''/'') (drop r (take n input))"
          have l1: "length ret1 = n + 1"
            by (simp add: ret1_def l)
          have sep: "((is_root \<and> w \<noteq> 1) \<or> (\<not> is_root \<and> w \<noteq> 0)) =
              (w \<noteq> length (path_base is_root))"
            by (auto simp add: path_base_def)
          have w1r: "w1 \<le> r"
            using e rn ns w sep unfolding w1_def path_sep_def lw by auto
          have t1: "take w1 ret1 = take w ret @ path_sep is_root (take w ret)"
          proof (cases "(is_root \<and> w \<noteq> 1) \<or> (\<not> is_root \<and> w \<noteq> 0)")
            case True
            from w r l have "w < length ret"
              by simp
            then show ?thesis
              unfolding w1_def ret1_def path_sep_def lw if_P [OF True]
              by (simp add: take_update_snoc)
          next
            case False
            show ?thesis
              unfolding w1_def ret1_def path_sep_def lw if_not_P [OF False] by simp
          qed
          from w1r r l1 have "w1 + (n - r) \<le> length ret1"
            by simp
          from copy_element_eq [OF n r this] obtain ret2 where
            ce: "copy_element input n r w1 ret1 = (r + length ?e, w1 + length ?e, ret2)"
            and t2: "take (w1 + length ?e) ret2 = take w1 ret1 @ ?e"
            and l2: "length ret2 = length ret1"
            by blast
          have pl: "path_loop input n is_root r w dotdot ret =
              path_loop input n is_root (r + length ?e) (w1 + length ?e) dotdot ret2"
            using rn ns nd ne ce
            unfolding w1_def ret1_def path_sep_def lw
            by (subst path_loop.simps) (auto simp add: Let_def)
          have c1: "\<not> (input ! r = CHR ''.'' \<and>
              (drop (r + 1) (take n input) = [] \<or> hd (drop (r + 1) (take n input)) = CHR ''/''))"
            using nd rest_end [OF n, of "r + 1"] rn by simp
          have c2: "\<not> (input ! r = CHR ''.'' \<and> hd (drop (r + 1) (take n input)) = CHR ''.'' \<and>
              (tl (drop (r + 1) (take n input)) = [] \<or>
               hd (tl (drop (r + 1) (take n input))) = CHR ''/''))"
          proof (cases "input ! r = CHR ''.''")
            case True
            with nd rn have r1: "r + 1 < n"
              by auto
            from rest_Cons [OF n r1] have d1:
              "drop (r + 1) (take n input) = input ! (r + 1) # drop (r + 2) (take n input)"
              by (simp add: numeral_2_eq_2)
            from r1 have "r + 2 \<le> n"
              by simp
            from rest_end [OF n this] ne True show ?thesis
              unfolding d1 by simp
          next
            case False
            then show ?thesis
              by simp
          qed
          have cl: "clean_loop is_root dotdot (take w ret) (drop r (take n input)) =
              clean_loop is_root dotdot (take w ret @ path_sep is_root (take w ret) @ ?e)
                (dropWhile (\<lambda>x. x \<noteq> CHR ''/'') (drop r (take n input)))"
            using clean_loop_element [OF ns c1 c2, of is_root dotdot "take w ret"]
            unfolding d [symmetric] .
          have le: "length ?e \<le> n - r"
            using length_takeWhile_le [of "\<lambda>x. x \<noteq> CHR ''/''" "drop r (take n input)"] n
            by simp
          have dw: "dropWhile (\<lambda>x. x \<noteq> CHR ''/'') (drop r (take n input)) =
              drop (r + length ?e) (take n input)"
            by (simp add: dropWhile_eq_drop add.commute)
          have stop: "r + length ?e = n \<or> input ! (r + length ?e) = CHR ''/''"
          proof (cases "r + length ?e < n")
            case True
            from rest_Cons [OF n True] dw
            have "dropWhile (\<lambda>x. x \<noteq> CHR ''/'') (drop r (take n input)) =
                input ! (r + length ?e) # drop (r + length ?e + 1) (take n input)"
              by simp
            then have "\<not> (input ! (r + length ?e) \<noteq> CHR ''/'')"
              using hd_dropWhile [of "\<lambda>x. x \<noteq> CHR ''/''" "drop r (take n input)"]
              by (metis list.sel(1) list.distinct(1))
            then show ?thesis
              by simp
          next
            case False
            with le rn have "r + length ?e = n"
              by arith
            then show ?thesis ..
          qed
          have "take (fst (path_loop input n is_root (r + length ?e) (w1 + length ?e) dotdot ret2))
                  (snd (path_loop input n is_root (r + length ?e) (w1 + length ?e) dotdot ret2)) =
               clean_loop is_root dotdot (take (w1 + length ?e) ret2)
                 (drop (r + length ?e) (take n input)) \<and>
             fst (path_loop input n is_root (r + length ?e) (w1 + length ?e) dotdot ret2) \<le> n \<and>
             length (snd (path_loop input n is_root (r + length ?e) (w1 + length ?e) dotdot ret2)) =
               n + 1"
          proof (rule "1.IH"(6) [where xa = w1 and y = ret1])
            show "(w1, ret1) =
                (if is_root \<and> w \<noteq> 1 \<or> \<not> is_root \<and> w \<noteq> 0
                 then (w + 1, ret[w := CHR ''/'']) else (w, ret))"
              unfolding w1_def ret1_def path_sep_def lw by auto
            show "(r + length ?e, w1 + length ?e, ret2) = copy_element input n r w1 ret1"
              by (simp add: ce)
            show "(w1 + length ?e, ret2) = (w1 + length ?e, ret2)"
              by simp
          qed (use rn ns nd ne n l1 l2 w1r le stop in auto)
          then show ?thesis
            unfolding pl cl t2 t1 dw by simp
        qed
      qed
    qed
  qed
qed

subsection \<open>The shape of the buffer\<close>

lemma canon_bounds:
  "canon is_root dotdot out \<Longrightarrow>
   length (path_base is_root) \<le> dotdot \<and> dotdot \<le> length out \<and>
   take (length (path_base is_root)) out = path_base is_root"
  by (induction rule: canon.induct) auto

lemma canon_at_base:
  assumes "canon is_root dotdot out" and "length out = length (path_base is_root)"
  shows "out = path_base is_root \<and> dotdot = length (path_base is_root)"
  using canon_bounds [OF assms(1)] assms(2) by auto

lemma path_sep_cases:
  "path_sep is_root out = [] \<and> length out = length (path_base is_root) \<or>
   path_sep is_root out = [CHR ''/''] \<and> length out \<noteq> length (path_base is_root)"
  by (auto simp add: path_sep_def path_base_def)

lemma dotdot_sep_cases:
  "dotdot_sep out = [] \<and> out = [] \<or> dotdot_sep out = [CHR ''/''] \<and> out \<noteq> []"
  by (auto simp add: dotdot_sep_def)

lemma backtrack_scan:
  "lo \<le> w \<Longrightarrow> (\<forall>i. lo < i \<and> i \<le> w \<longrightarrow> ret ! i \<noteq> CHR ''/'' \<and> dotdot < i) \<Longrightarrow>
   \<not> (dotdot < lo \<and> ret ! lo \<noteq> CHR ''/'') \<Longrightarrow> backtrack ret dotdot w = lo"
proof (induction ret dotdot w rule: backtrack.induct)
  case (1 ret dotdot w)
  show ?case
  proof (cases "w = lo")
    case True
    with "1.prems" show ?thesis
      by (subst backtrack.simps) auto
  next
    case False
    with "1.prems" have c: "dotdot < w \<and> ret ! w \<noteq> CHR ''/''" and "lo \<le> w - 1"
      by auto
    have "backtrack ret dotdot (w - 1) = lo"
    proof (rule "1.IH")
      show "dotdot < w \<and> ret ! w \<noteq> CHR ''/''"
        by (fact c)
      show "lo \<le> w - 1"
        by fact
      show "\<forall>i. lo < i \<and> i \<le> w - 1 \<longrightarrow> ret ! i \<noteq> CHR ''/'' \<and> dotdot < i"
        using "1.prems"(2) by auto
      show "\<not> (dotdot < lo \<and> ret ! lo \<noteq> CHR ''/'')"
        by (fact "1.prems"(3))
    qed
    with c show ?thesis
      by (subst backtrack.simps) simp
  qed
qed

lemma backtrack_pop:
  assumes e: "CHR ''/'' \<notin> set e" "e \<noteq> []" and dd: "dotdot \<le> length out"
    and sep: "sep = [] \<and> length out = dotdot \<or> sep = [CHR ''/'']"
  shows "backtrack (out @ sep @ e) dotdot (length (out @ sep @ e) - 1) = length out"
proof (rule backtrack_scan)
  from e show "length out \<le> length (out @ sep @ e) - 1"
    by (cases e) simp_all
  show "\<forall>i. length out < i \<and> i \<le> length (out @ sep @ e) - 1 \<longrightarrow>
      (out @ sep @ e) ! i \<noteq> CHR ''/'' \<and> dotdot < i"
  proof (intro allI impI)
    fix i
    assume i: "length out < i \<and> i \<le> length (out @ sep @ e) - 1"
    from sep show "(out @ sep @ e) ! i \<noteq> CHR ''/'' \<and> dotdot < i"
    proof
      assume s: "sep = [] \<and> length out = dotdot"
      with i e have "i - length out < length e"
        by (cases e) auto
      then have "e ! (i - length out) \<in> set e"
        by simp
      with e s i show ?thesis
        by (auto simp add: nth_append)
    next
      assume s: "sep = [CHR ''/'']"
      with i e have "i - length out - 1 < length e"
        by (cases e) auto
      then have "e ! (i - length out - 1) \<in> set e"
        by simp
      with e s i dd show ?thesis
        by (auto simp add: nth_append nth_Cons')
    qed
  qed
  from sep e show "\<not> (dotdot < length out \<and> (out @ sep @ e) ! length out \<noteq> CHR ''/'')"
    by (auto simp add: nth_append)
qed

lemma canon_pop:
  assumes "canon is_root dotdot out" and "dotdot < length out"
  shows "canon is_root dotdot (take (backtrack out dotdot (length out - 1)) out)"
  using assms
proof (cases rule: canon.cases)
  case canon_base
  with assms(2) show ?thesis
    by simp
next
  case (canon_dotdot dotdot' out')
  with assms(2) show ?thesis
    by simp
next
  case (canon_element out' e)
  from canon_bounds [OF canon_element(2)] have dd: "dotdot \<le> length out'"
    by simp
  from path_sep_cases [of is_root out'] canon_at_base [OF canon_element(2)]
  have sep: "path_sep is_root out' = [] \<and> length out' = dotdot \<or>
             path_sep is_root out' = [CHR ''/'']"
    by auto
  from canon_element(3) have e: "CHR ''/'' \<notin> set e" "e \<noteq> []"
    by (simp_all add: real_element_def)
  from backtrack_pop [OF e dd sep] canon_element show ?thesis
    by simp
qed

lemma takeWhile_real_element:
  assumes "c \<noteq> CHR ''/''"
    and "\<not> (c = CHR ''.'' \<and> (cs = [] \<or> hd cs = CHR ''/''))"
    and "\<not> (c = CHR ''.'' \<and> hd cs = CHR ''.'' \<and> (tl cs = [] \<or> hd (tl cs) = CHR ''/''))"
  shows "real_element (takeWhile (\<lambda>x. x \<noteq> CHR ''/'') (c # cs))"
proof -
  let ?P = "\<lambda>x. x \<noteq> CHR ''/''"
  have nil: "(takeWhile ?P xs = []) = (xs = [] \<or> hd xs = CHR ''/'')" for xs
    by (cases xs) auto
  from assms(1) have t: "takeWhile ?P (c # cs) = c # takeWhile ?P cs"
    by simp
  have "CHR ''/'' \<notin> set (takeWhile ?P (c # cs))"
    by (auto dest: set_takeWhileD)
  moreover have "takeWhile ?P (c # cs) \<noteq> [CHR ''.'']"
    unfolding t using assms(2) by (auto simp add: nil)
  moreover have "takeWhile ?P (c # cs) \<noteq> [CHR ''.'', CHR ''.'']"
  proof
    assume a: "takeWhile ?P (c # cs) = [CHR ''.'', CHR ''.'']"
    from a [unfolded t] have c: "c = CHR ''.''" and t2: "takeWhile ?P cs = [CHR ''.'']"
      by simp_all
    then obtain cs' where cs: "cs = CHR ''.'' # cs'"
      by (cases cs) (auto split: if_splits)
    with t2 have "takeWhile ?P cs' = []"
      by simp
    then have "cs' = [] \<or> hd cs' = CHR ''/''"
      by (simp add: nil)
    with c cs assms(3) show False
      by simp
  qed
  ultimately show ?thesis
    unfolding real_element_def t by simp
qed

lemma clean_loop_canon:
  "canon is_root dotdot out \<Longrightarrow> \<exists>dotdot'. canon is_root dotdot' (clean_loop is_root dotdot out rest)"
proof (induction is_root dotdot out rest rule: clean_loop.induct)
  case (1 is_root dotdot out)
  then show ?case
    by auto
next
  case (2 is_root dotdot out c cs)
  note c = \<open>canon is_root dotdot out\<close>
  show ?case
  proof (cases "c = CHR ''/''")
    case True
    with "2.IH"(1) c show ?thesis
      by (simp add: clean_loop.simps(2))
  next
    case ns: False
    show ?thesis
    proof (cases "c = CHR ''.'' \<and> (cs = [] \<or> hd cs = CHR ''/'')")
      case True
      with "2.IH"(2) ns c show ?thesis
        by (simp add: clean_loop.simps(2))
    next
      case nd: False
      show ?thesis
      proof (cases "c = CHR ''.'' \<and> hd cs = CHR ''.'' \<and> (tl cs = [] \<or> hd (tl cs) = CHR ''/'')")
        case dd: True
        show ?thesis
        proof (cases "dotdot < length out")
          case True
          from "2.IH"(3) [OF ns nd dd True canon_pop [OF c True]] ns nd dd True show ?thesis
            by (simp add: clean_loop.simps(2))
        next
          case nb: False
          with canon_bounds [OF c] have eq: "length out = dotdot"
            by simp
          show ?thesis
          proof (cases is_root)
            case True
            with "2.IH"(5) [OF ns nd dd nb] c ns nd dd nb show ?thesis
              by (simp add: clean_loop.simps(2))
          next
            case False
            from canon_dotdot [OF c False eq]
            have "canon is_root (length out + length (dotdot_sep out) + 2)
                (out @ dotdot_sep out @ [CHR ''.'', CHR ''.''])" .
            from "2.IH"(4) [OF ns nd dd nb False this] ns nd dd nb False show ?thesis
              by (simp add: clean_loop.simps(2))
          qed
        qed
      next
        case ne: False
        from canon_element [OF c takeWhile_real_element [OF ns nd ne]]
        have "canon is_root dotdot
            (out @ path_sep is_root out @ takeWhile (\<lambda>x. x \<noteq> CHR ''/'') (c # cs))" .
        from "2.IH"(6) [OF ns nd ne this] show ?thesis
          unfolding clean_loop_element [OF ns nd ne] .
      qed
    qed
  qed
qed


subsection \<open>Processing a buffer again\<close>

lemma clean_loop_real_element:
  assumes e: "real_element e" and rest: "rest = [] \<or> hd rest = CHR ''/''"
  shows "clean_loop is_root dotdot out (e @ rest) =
         clean_loop is_root dotdot (out @ path_sep is_root out @ e) rest"
proof -
  let ?P = "\<lambda>x. x \<noteq> CHR ''/''"
  from e obtain c cs where ecs: "e = c # cs"
    by (cases e) (auto simp add: real_element_def)
  from e ecs have c: "c \<noteq> CHR ''/''" and cs: "CHR ''/'' \<notin> set cs"
    by (auto simp add: real_element_def)
  have a: "\<not> (c = CHR ''.'' \<and> (cs @ rest = [] \<or> hd (cs @ rest) = CHR ''/''))"
  proof (cases cs)
    case Nil
    with e ecs show ?thesis
      by (auto simp add: real_element_def)
  next
    case (Cons x xs)
    with cs show ?thesis
      by auto
  qed
  have b: "\<not> (c = CHR ''.'' \<and> hd (cs @ rest) = CHR ''.'' \<and>
      (tl (cs @ rest) = [] \<or> hd (tl (cs @ rest)) = CHR ''/''))"
  proof (cases cs)
    case Nil
    with e ecs a show ?thesis
      by (auto simp add: real_element_def)
  next
    case (Cons x xs)
    show ?thesis
    proof (cases xs)
      case Nil
      with Cons e ecs show ?thesis
        by (auto simp add: real_element_def)
    next
      case (Cons y ys)
      with \<open>cs = x # xs\<close> cs show ?thesis
        by auto
    qed
  qed
  from rest have r: "takeWhile ?P rest = []" "dropWhile ?P rest = rest"
    by (cases rest; simp)+
  from e have "\<And>x. x \<in> set e \<Longrightarrow> ?P x"
    by (auto simp add: real_element_def)
  then have "takeWhile ?P (e @ rest) = e" "dropWhile ?P (e @ rest) = rest"
    by (simp_all add: r)
  with clean_loop_element [OF c a b, of is_root dotdot out] show ?thesis
    by (simp add: ecs)
qed

lemma clean_loop_dotdot_element:
  assumes "rest = [] \<or> hd rest = CHR ''/''" and "\<not> is_root" and "length out = dotdot"
  shows "clean_loop is_root dotdot out (CHR ''.'' # CHR ''.'' # rest) =
         clean_loop is_root (length out + length (dotdot_sep out) + 2)
           (out @ dotdot_sep out @ [CHR ''.'', CHR ''.'']) rest"
  using assms by (simp add: clean_loop_dotdot)

lemma canon_replay:
  "canon is_root dotdot out \<Longrightarrow> rest = [] \<or> hd rest = CHR ''/'' \<Longrightarrow>
   clean_loop is_root (length (path_base is_root)) (path_base is_root)
     (drop (length (path_base is_root)) out @ rest) =
   clean_loop is_root dotdot out rest"
proof (induction arbitrary: rest rule: canon.induct)
  case canon_base
  show ?case
    by simp
next
  case (canon_dotdot dotdot out)
  from \<open>\<not> is_root\<close> have b: "path_base is_root = []"
    by (simp add: path_base_def)
  from dotdot_sep_cases [of out] show ?case
  proof
    assume s: "dotdot_sep out = [] \<and> out = []"
    with canon_dotdot.hyps(3) have "dotdot = 0"
      by simp
    with s b clean_loop_dotdot_element [OF canon_dotdot.prems \<open>\<not> is_root\<close>, of "[]" 0]
    show ?thesis
      by (simp add: dotdot_sep_def)
  next
    assume s: "dotdot_sep out = [CHR ''/''] \<and> out \<noteq> []"
    have "clean_loop is_root (length (path_base is_root)) (path_base is_root)
        (drop (length (path_base is_root)) out @ (CHR ''/'' # CHR ''.'' # CHR ''.'' # rest)) =
      clean_loop is_root dotdot out (CHR ''/'' # CHR ''.'' # CHR ''.'' # rest)"
      by (rule canon_dotdot.IH) simp
    also have "\<dots> = clean_loop is_root dotdot out (CHR ''.'' # CHR ''.'' # rest)"
      by (rule clean_loop_slash)
    also have "\<dots> = clean_loop is_root (length out + length (dotdot_sep out) + 2)
        (out @ dotdot_sep out @ [CHR ''.'', CHR ''.'']) rest"
      by (rule clean_loop_dotdot_element [OF canon_dotdot.prems \<open>\<not> is_root\<close> canon_dotdot.hyps(3)])
    finally show ?thesis
      using s b by simp
  qed
next
  case (canon_element dotdot out e)
  from canon_bounds [OF canon_element.hyps(1)]
  have d: "drop (length (path_base is_root)) (out @ path_sep is_root out @ e) =
      drop (length (path_base is_root)) out @ path_sep is_root out @ e"
    by simp
  from path_sep_cases [of is_root out] show ?case
  proof
    assume s: "path_sep is_root out = [] \<and> length out = length (path_base is_root)"
    with canon_at_base [OF canon_element.hyps(1)]
    have o: "out = path_base is_root" "dotdot = length (path_base is_root)"
      by simp_all
    from clean_loop_real_element [OF canon_element.hyps(2) canon_element.prems,
        of is_root dotdot out] s o
    show ?thesis
      unfolding d by simp
  next
    assume s: "path_sep is_root out = [CHR ''/''] \<and> length out \<noteq> length (path_base is_root)"
    have "clean_loop is_root (length (path_base is_root)) (path_base is_root)
        (drop (length (path_base is_root)) out @ (CHR ''/'' # e @ rest)) =
      clean_loop is_root dotdot out (CHR ''/'' # e @ rest)"
      by (rule canon_element.IH) simp
    also have "\<dots> = clean_loop is_root dotdot out (e @ rest)"
      by (rule clean_loop_slash)
    also have "\<dots> = clean_loop is_root dotdot (out @ path_sep is_root out @ e) rest"
      by (rule clean_loop_real_element [OF canon_element.hyps(2) canon_element.prems])
    finally show ?thesis
      unfolding d using s by simp
  qed
qed

lemma canon_hd:
  "canon is_root dotdot out \<Longrightarrow> out \<noteq> [] \<Longrightarrow> (hd out = CHR ''/'') = is_root"
proof (induction rule: canon.induct)
  case canon_base
  then show ?case
    by (auto simp add: path_base_def)
next
  case (canon_dotdot dotdot out)
  then show ?case
    by (cases out) (auto simp add: dotdot_sep_def)
next
  case (canon_element dotdot out e)
  show ?case
  proof (cases out)
    case Nil
    with canon_element.hyps(1) have "\<not> is_root"
      using canon_bounds [OF canon_element.hyps(1)] by (auto simp add: path_base_def)
    with Nil canon_element.hyps(2) show ?thesis
      by (cases e) (auto simp add: path_sep_def real_element_def)
  next
    case (Cons x xs)
    with canon_element.IH show ?thesis
      by simp
  qed
qed

subsection \<open>Bytes and elements of the result\<close>

lemma mem_tl: "x \<in> set (tl xs) \<Longrightarrow> x \<in> set xs"
  by (cases xs) auto

lemma clean_loop_chars:
  "x \<in> set (clean_loop is_root dotdot out rest) \<Longrightarrow>
   x \<in> set out \<or> x \<in> set rest \<or> x = CHR ''/'' \<or> x = CHR ''.''"
proof (induction is_root dotdot out rest rule: clean_loop.induct)
  case (1 is_root dotdot out)
  then show ?case
    by simp
next
  case (2 is_root dotdot out c cs)
  note x = \<open>x \<in> set (clean_loop is_root dotdot out (c # cs))\<close>
  have sep: "y \<in> set (path_sep is_root out) \<Longrightarrow> y = CHR ''/''"
    "y \<in> set (dotdot_sep out) \<Longrightarrow> y = CHR ''/''" for y
    by (auto simp add: path_sep_def dotdot_sep_def split: if_splits)
  show ?case
  proof (cases "c = CHR ''/''")
    case True
    with x "2.IH"(1) show ?thesis
      by (auto simp add: clean_loop.simps(2))
  next
    case ns: False
    show ?thesis
    proof (cases "c = CHR ''.'' \<and> (cs = [] \<or> hd cs = CHR ''/'')")
      case True
      with x ns "2.IH"(2) show ?thesis
        by (auto simp add: clean_loop.simps(2))
    next
      case nd: False
      show ?thesis
      proof (cases "c = CHR ''.'' \<and> hd cs = CHR ''.'' \<and> (tl cs = [] \<or> hd (tl cs) = CHR ''/'')")
        case dd: True
        show ?thesis
        proof (cases "dotdot < length out")
          case True
          with x ns nd dd have "x \<in> set (clean_loop is_root dotdot
              (take (backtrack out dotdot (length out - 1)) out) (tl cs))"
            by (simp add: clean_loop.simps(2))
          from "2.IH"(3) [OF ns nd dd True this] show ?thesis
            by (auto dest: in_set_takeD mem_tl)
        next
          case nb: False
          show ?thesis
          proof (cases is_root)
            case True
            with x ns nd dd nb have "x \<in> set (clean_loop is_root dotdot out (tl cs))"
              by (simp add: clean_loop.simps(2))
            from "2.IH"(5) [OF ns nd dd nb _ this] True show ?thesis
              by (auto dest: mem_tl)
          next
            case False
            with x ns nd dd nb have "x \<in> set (clean_loop is_root
                (length out + length (dotdot_sep out) + 2)
                (out @ dotdot_sep out @ [CHR ''.'', CHR ''.'']) (tl cs))"
              by (simp add: clean_loop.simps(2))
            from "2.IH"(4) [OF ns nd dd nb False this] show ?thesis
              by (auto dest: mem_tl sep)
          qed
        qed
      next
        case ne: False
        from x have "x \<in> set (clean_loop is_root dotdot
            (out @ path_sep is_root out @ takeWhile (\<lambda>x. x \<noteq> CHR ''/'') (c # cs))
            (dropWhile (\<lambda>x. x \<noteq> CHR ''/'') (c # cs)))"
          unfolding clean_loop_element [OF ns nd ne] .
        from "2.IH"(6) [OF ns nd ne this]
        have "x \<in> set out \<or> x \<in> set (path_sep is_root out) \<or>
            x \<in> set (takeWhile (\<lambda>x. x \<noteq> CHR ''/'') (c # cs)) \<or>
            x \<in> set (dropWhile (\<lambda>x. x \<noteq> CHR ''/'') (c # cs)) \<or>
            x = CHR ''/'' \<or> x = CHR ''.''"
          by (simp only: set_append Un_iff) blast
        moreover have "y \<in> set (takeWhile (\<lambda>x. x \<noteq> CHR ''/'') (c # cs)) \<Longrightarrow> y \<in> set (c # cs)"
          "y \<in> set (dropWhile (\<lambda>x. x \<noteq> CHR ''/'') (c # cs)) \<Longrightarrow> y \<in> set (c # cs)" for y
          by (blast dest: set_takeWhileD set_dropWhileD)+
        ultimately show ?thesis
          using sep(1) by blast
      qed
    qed
  qed
qed

lemma double_slash_append:
  "double_slash (xs @ ys) =
     (double_slash xs \<or> double_slash ys \<or>
      (xs \<noteq> [] \<and> ys \<noteq> [] \<and> last xs = CHR ''/'' \<and> hd ys = CHR ''/''))"
proof (induction xs rule: double_slash.induct)
  case (1 a b cs)
  then show ?case
    by auto
next
  case (2 a)
  show ?case
    by (cases ys) auto
next
  case 3
  show ?case
    by simp
qed

lemma no_slash_no_double: "CHR ''/'' \<notin> set e \<Longrightarrow> \<not> double_slash e"
  by (induction e rule: double_slash.induct) auto

lemma elements_not_Nil: "elements xs \<noteq> []"
  by (induction xs) (auto split: list.splits)

lemma elements_append_slash: "elements (xs @ CHR ''/'' # ys) = elements xs @ elements ys"
proof (induction xs)
  case Nil
  show ?case
    by simp
next
  case (Cons c xs)
  with elements_not_Nil [of xs] show ?case
    by (cases "elements xs") auto
qed

lemma elements_no_slash: "CHR ''/'' \<notin> set e \<Longrightarrow> elements e = [e]"
  by (induction e) auto

lemma canon_shape:
  "canon is_root dotdot out \<Longrightarrow>
   \<not> double_slash out \<and> (out \<noteq> path_base is_root \<longrightarrow> last out \<noteq> CHR ''/'') \<and>
   [CHR ''.''] \<notin> set (elements out)"
proof (induction rule: canon.induct)
  case canon_base
  show ?case
    by (simp add: path_base_def)
next
  case (canon_dotdot dotdot out)
  from \<open>\<not> is_root\<close> have b: "path_base is_root = []"
    by (simp add: path_base_def)
  from dotdot_sep_cases [of out] show ?case
  proof
    assume "dotdot_sep out = [] \<and> out = []"
    with b show ?thesis
      by (simp add: dotdot_sep_def)
  next
    assume s: "dotdot_sep out = [CHR ''/''] \<and> out \<noteq> []"
    with canon_dotdot.IH b have i: "\<not> double_slash out" "last out \<noteq> CHR ''/''"
      "[CHR ''.''] \<notin> set (elements out)"
      by simp_all
    have "elements (out @ CHR ''/'' # [CHR ''.'', CHR ''.'']) =
        elements out @ elements [CHR ''.'', CHR ''.'']"
      by (rule elements_append_slash)
    with i s b show ?thesis
      by (simp add: double_slash_append)
  qed
next
  case (canon_element dotdot out e)
  from canon_element.hyps(2) have e: "e \<noteq> []" "CHR ''/'' \<notin> set e" "e \<noteq> [CHR ''.'']"
    by (simp_all add: real_element_def)
  have he: "hd e \<noteq> CHR ''/''" "last e \<noteq> CHR ''/''" "\<not> double_slash e"
  proof -
    from e show "hd e \<noteq> CHR ''/''"
      by (metis hd_in_set)
    from e show "last e \<noteq> CHR ''/''"
      by (metis last_in_set)
    from e show "\<not> double_slash e"
      by (simp add: no_slash_no_double)
  qed
  note i = canon_element.IH
  from path_sep_cases [of is_root out] show ?case
  proof
    assume s: "path_sep is_root out = [] \<and> length out = length (path_base is_root)"
    with canon_at_base [OF canon_element.hyps(1)] have o: "out = path_base is_root"
      by simp
    show ?thesis
    proof (cases is_root)
      case True
      with o s e he show ?thesis
        by (cases e) (auto simp add: path_base_def elements_no_slash)
    next
      case False
      with o s e he show ?thesis
        by (auto simp add: path_base_def elements_no_slash)
    qed
  next
    assume s: "path_sep is_root out = [CHR ''/''] \<and> length out \<noteq> length (path_base is_root)"
    then have o: "out \<noteq> path_base is_root"
      by auto
    with i have l: "last out \<noteq> CHR ''/''"
      by simp
    have "elements (out @ CHR ''/'' # e) = elements out @ elements e"
      by (rule elements_append_slash)
    with i s e he l o show ?thesis
      by (cases e) (auto simp add: double_slash_append elements_no_slash)
  qed
qed

subsection \<open>The function as a whole\<close>

lemma NUL_neq [simp]: "NUL \<noteq> CHR ''/''" "NUL \<noteq> CHR ''.''" "CHR ''/'' \<noteq> NUL" "CHR ''.'' \<noteq> NUL"
  by (simp_all add: NUL_def)

lemma c_string_padded:
  "NUL \<notin> set s \<Longrightarrow> c_string (s @ NUL # replicate k NUL) = s"
  by (induction s) (auto simp add: c_string_def)

lemma clean_path_not_Nil: "clean_path inp \<noteq> []"
  by (simp add: clean_path_def Let_def)

lemma clean_path_dot: "clean_path [CHR ''.''] = [CHR ''.'']"
  by (simp add: clean_path_def path_base_def clean_loop_dot)

lemma clean_path_canon:
  assumes "inp \<noteq> []"
  shows "clean_path inp = [CHR ''.''] \<or>
         clean_path inp \<noteq> [] \<and> (\<exists>dotdot. canon (hd inp = CHR ''/'') dotdot (clean_path inp))"
proof -
  let ?R = "hd inp = CHR ''/''"
  let ?F = "clean_loop ?R (length (path_base ?R)) (path_base ?R) (drop (length (path_base ?R)) inp)"
  from clean_loop_canon [OF canon_base, of ?R "drop (length (path_base ?R)) inp"]
  obtain dotdot where "canon ?R dotdot ?F"
    by blast
  with assms show ?thesis
    by (auto simp add: clean_path_def Let_def)
qed

lemma clean_path_idem: "clean_path (clean_path inp) = clean_path inp"
proof (cases "inp = []")
  case True
  then show ?thesis
    by (simp add: clean_path_def [of "[]"] clean_path_dot)
next
  case False
  from clean_path_canon [OF False] show ?thesis
  proof
    assume "clean_path inp = [CHR ''.'']"
    then show ?thesis
      by (simp add: clean_path_dot)
  next
    let ?R = "hd inp = CHR ''/''"
    let ?F = "clean_path inp"
    assume "?F \<noteq> [] \<and> (\<exists>dotdot. canon ?R dotdot ?F)"
    then obtain dotdot where ne: "?F \<noteq> []" and c: "canon ?R dotdot ?F"
      by blast
    from canon_hd [OF c ne] have hd: "(hd ?F = CHR ''/'') = ?R" .
    from canon_replay [OF c, of "[]"]
    have "clean_loop ?R (length (path_base ?R)) (path_base ?R)
        (drop (length (path_base ?R)) ?F) = ?F"
      by simp
    with ne hd show ?thesis
      by (subst clean_path_def) (simp add: Let_def)
  qed
qed

lemma clean_path_chars:
  assumes "NUL \<notin> set inp"
  shows "NUL \<notin> set (clean_path inp)"
proof
  assume a: "NUL \<in> set (clean_path inp)"
  let ?R = "hd inp = CHR ''/''"
  let ?F = "clean_loop ?R (length (path_base ?R)) (path_base ?R) (drop (length (path_base ?R)) inp)"
  from a have "NUL \<in> set ?F"
    by (auto simp add: clean_path_def Let_def split: if_splits)
  from clean_loop_chars [OF this] assms show False
    by (auto simp add: path_base_def dest: in_set_dropD split: if_splits)
qed

text \<open>The loop started as \<^verbatim>\<open>sanitize_path\<close> starts it.\<close>

lemma path_loop_from_start:
  assumes n: "n \<le> length input" "0 < n"
    and ret: "length ret = n + 1" "take (length (path_base is_root)) ret = path_base is_root"
  shows "take (fst (path_loop input n is_root (length (path_base is_root))
                     (length (path_base is_root)) (length (path_base is_root)) ret))
              (snd (path_loop input n is_root (length (path_base is_root))
                     (length (path_base is_root)) (length (path_base is_root)) ret)) =
           clean_loop is_root (length (path_base is_root)) (path_base is_root)
             (drop (length (path_base is_root)) (take n input)) \<and>
         fst (path_loop input n is_root (length (path_base is_root))
                (length (path_base is_root)) (length (path_base is_root)) ret) \<le> n \<and>
         length (snd (path_loop input n is_root (length (path_base is_root))
                (length (path_base is_root)) (length (path_base is_root)) ret)) = n + 1"
proof -
  from n have "length (path_base is_root) \<le> n"
    by (simp add: path_base_def)
  from path_loop_clean_loop [OF n(1) this _ _ ret(1), of "length (path_base is_root)" is_root
      "length (path_base is_root)"]
  show ?thesis
    unfolding ret(2) by simp
qed

lemma clean_path_length:
  assumes "inp \<noteq> []"
  shows "length (clean_path inp) \<le> length inp"
proof -
  let ?R = "hd inp = CHR ''/''"
  let ?b = "path_base ?R"
  let ?n = "length inp"
  let ?ret = "?b @ replicate (?n + 1 - length ?b) NUL"
  let ?res = "path_loop inp ?n ?R (length ?b) (length ?b) (length ?b) ?ret"
  let ?F = "clean_loop ?R (length ?b) ?b (drop (length ?b) inp)"
  from assms have n: "?n \<le> length inp" "0 < ?n"
    by simp_all
  have ret: "length ?ret = ?n + 1" "take (length ?b) ?ret = ?b"
    by (simp_all add: path_base_def)
  from path_loop_from_start [OF n ret]
  have "take (fst ?res) (snd ?res) = ?F" and "fst ?res \<le> ?n"
    by simp_all
  moreover have "length (take (fst ?res) (snd ?res)) \<le> fst ?res"
    by simp
  ultimately have "length ?F \<le> ?n"
    by simp
  with assms show ?thesis
    by (auto simp add: clean_path_def Let_def Suc_le_eq)
qed

lemma sanitize_path_clean_path:
  "\<exists>buf. sanitize_path True input = Some buf \<and>
         c_string buf = clean_path (take MAX_PATH_LEN (c_string input)) \<and>
         (c_string input \<noteq> [] \<longrightarrow> terminated buf)"
proof -
  define n where "n = strnlen input MAX_PATH_LEN"
  define inp where "inp = take MAX_PATH_LEN (c_string input)"
  have cs: "c_string input = take (length (c_string input)) input"
    unfolding c_string_def by (rule takeWhile_eq_take)
  have ln: "length inp = n"
    by (simp add: inp_def n_def strnlen_def min.commute)
  have nl: "n \<le> length input"
    unfolding n_def strnlen_def c_string_def
    using length_takeWhile_le [of "\<lambda>c. c \<noteq> NUL" input] by simp
  have ti: "take n input = inp"
  proof -
    have "take n input = take n (take (length (c_string input)) input)"
      by (simp add: n_def strnlen_def min.absorb1)
    also have "\<dots> = take n (c_string input)"
      using cs by simp
    also have "\<dots> = inp"
      by (simp add: inp_def n_def strnlen_def min_def)
    finally show ?thesis .
  qed
  have nul: "NUL \<notin> set inp"
    unfolding inp_def c_string_def by (auto dest: in_set_takeD set_takeWhileD)
  show ?thesis
  proof (cases "n = 0")
    case True
    with ln have "inp = []"
      by simp
    moreover from True have "c_string input = []"
      by (simp add: n_def strnlen_def MAX_PATH_LEN_def min_def split: if_splits)
    moreover from True have "sanitize_path True input = Some [CHR ''.'']"
      by (simp add: sanitize_path_def n_def [symmetric])
    moreover have "c_string [CHR ''.''] = [CHR ''.'']"
      by (simp add: c_string_def)
    ultimately show ?thesis
      by (simp add: clean_path_def inp_def [symmetric])
  next
    case False
    then have n0: "0 < n"
      by simp
    with ln have ne: "inp \<noteq> []"
      by auto
    define R where "R = (input ! 0 = CHR ''/'')"
    from n0 have "take n input ! 0 = input ! 0"
      by simp
    with ne have R: "R = (hd inp = CHR ''/'')"
      by (simp add: R_def hd_conv_nth ti)
    define ret0 where "ret0 = (if R then (replicate (n + 1) NUL)[0 := CHR ''/''] else replicate (n + 1) NUL)"
    have ret0: "length ret0 = n + 1" "take (length (path_base R)) ret0 = path_base R"
      by (simp_all add: ret0_def path_base_def)
    define res where "res = path_loop input n R (length (path_base R)) (length (path_base R))
        (length (path_base R)) ret0"
    define F where "F = clean_loop R (length (path_base R)) (path_base R)
        (drop (length (path_base R)) inp)"
    from path_loop_from_start [OF nl n0 ret0] have res:
      "take (fst res) (snd res) = F" "fst res \<le> n" "length (snd res) = n + 1"
      by (simp_all add: res_def F_def ti)
    have "length (take (fst res) (snd res)) = fst res"
      using res(2,3) by simp
    with res(1) have lF: "length F = fst res"
      by simp
    define w where "w = (if fst res = 0 then 1 else fst res)"
    define ret where "ret = (if fst res = 0 then (snd res)[0 := CHR ''.''] else snd res)"
    have cp: "clean_path inp = take w ret"
    proof (cases "fst res = 0")
      case True
      with lF res(3) ne show ?thesis
        by (cases "snd res") (simp_all add: clean_path_def R [symmetric] F_def [symmetric]
              w_def ret_def Let_def)
    next
      case False
      with lF res(1) ne show ?thesis
        by (auto simp add: clean_path_def R [symmetric] F_def [symmetric] w_def ret_def Let_def)
    qed
    have wn: "w \<le> n" "length ret = n + 1"
      using res n0 by (auto simp add: w_def ret_def)
    have sp: "sanitize_path True input = Some (memset ret w NUL (n + 1 - w))"
      using False
      by (simp add: sanitize_path_def n_def [symmetric] Let_def R_def [symmetric] split_beta
            res_def w_def ret_def ret0_def path_base_def)
    from wn have "memset ret w NUL (n + 1 - w) = take w ret @ replicate (Suc (n - w)) NUL"
      by (simp add: memset_def Suc_diff_le)
    with cp clean_path_chars [OF nul] have "c_string (memset ret w NUL (n + 1 - w)) = clean_path inp"
      and "terminated (memset ret w NUL (n + 1 - w))"
      by (simp_all add: c_string_padded terminated_def)
    with sp show ?thesis
      by (simp add: inp_def)
  qed
qed

text \<open>
  Claim C10 (as amended): \<^verbatim>\<open>sanitize_path\<close> is idempotent on non-empty input. For every
  input whose string (read up to \<open>MAX_PATH_LEN\<close> bytes) is not empty and for which the
  allocation succeeds, the buffer returned holds a NUL-terminated string; applying
  \<^verbatim>\<open>sanitize_path\<close> to that buffer returns a terminated buffer holding the same string;
  the string has no empty path element (\<^verbatim>\<open>//\<close>), has no \<^verbatim>\<open>.\<close> element unless it is exactly
  \<^verbatim>\<open>.\<close>, and is never longer than the bytes read from the input.
\<close>

theorem sanitize_path_idempotent:
  assumes "c_string input \<noteq> []" and "sanitize_path True input = Some out"
  shows "terminated out \<and>
         (\<exists>out'. sanitize_path True out = Some out' \<and> terminated out' \<and>
                 c_string out' = c_string out) \<and>
         \<not> double_slash (c_string out) \<and>
         (c_string out = [CHR ''.''] \<or> [CHR ''.''] \<notin> set (elements (c_string out))) \<and>
         length (c_string out) \<le> strnlen input MAX_PATH_LEN"
proof -
  define inp where "inp = take MAX_PATH_LEN (c_string input)"
  from assms(1) have ne: "inp \<noteq> []"
    by (simp add: inp_def MAX_PATH_LEN_def)
  have li: "length inp = strnlen input MAX_PATH_LEN"
    by (simp add: inp_def strnlen_def min.commute)
  from sanitize_path_clean_path [of input] assms
  have out: "c_string out = clean_path inp" and t: "terminated out"
    by (simp_all add: inp_def)
  from clean_path_length [OF ne] have len: "length (c_string out) \<le> length inp"
    by (simp add: out)
  then have "length (c_string out) \<le> MAX_PATH_LEN"
    by (simp add: inp_def)
  then have tk: "take MAX_PATH_LEN (c_string out) = c_string out"
    by simp
  from sanitize_path_clean_path [of out] obtain out' where
    "sanitize_path True out = Some out'"
    "c_string out' = clean_path (take MAX_PATH_LEN (c_string out))"
    "c_string out \<noteq> [] \<longrightarrow> terminated out'"
    by blast
  then have again: "sanitize_path True out = Some out' \<and> terminated out' \<and>
      c_string out' = c_string out"
    unfolding tk by (simp add: out clean_path_idem clean_path_not_Nil)
  have shape: "\<not> double_slash (c_string out) \<and>
      (c_string out = [CHR ''.''] \<or> [CHR ''.''] \<notin> set (elements (c_string out)))"
    using clean_path_canon [OF ne]
  proof
    assume "clean_path inp = [CHR ''.'']"
    then show ?thesis
      by (simp add: out)
  next
    assume "clean_path inp \<noteq> [] \<and>
      (\<exists>dotdot. canon (hd inp = CHR ''/'') dotdot (clean_path inp))"
    then obtain dotdot where "canon (hd inp = CHR ''/'') dotdot (c_string out)"
      by (auto simp add: out)
    from canon_shape [OF this] show ?thesis
      by simp
  qed
  from t again shape len li show ?thesis
    by auto
qed

text \<open>
  Claim C10, witness: the path \<^verbatim>\<open>/a/../b//c/./d\<close> is cleaned to \<^verbatim>\<open>/b/c/d\<close> in a buffer of
  fifteen bytes, and cleaning that buffer gives \<^verbatim>\<open>/b/c/d\<close> again.
\<close>

theorem sanitize_path_idempotent_witness:
  "c_string (''/a/../b//c/./d'' @ [NUL]) = ''/a/../b//c/./d'' \<and>
   sanitize_path True (''/a/../b//c/./d'' @ [NUL]) = Some (''/b/c/d'' @ replicate 9 NUL) \<and>
   terminated (''/b/c/d'' @ replicate 9 NUL) \<and>
   sanitize_path True (''/b/c/d'' @ replicate 9 NUL) = Some (''/b/c/d'' @ [NUL]) \<and>
   c_string (''/b/c/d'' @ [NUL]) = ''/b/c/d'' \<and>
   c_string (''/b/c/d'' @ replicate 9 NUL) = ''/b/c/d'' \<and>
   \<not> double_slash ''/b/c/d'' \<and>
   ''.'' \<notin> set (elements ''/b/c/d'') \<and>
   length ''/b/c/d'' \<le> strnlen (''/a/../b//c/./d'' @ [NUL]) MAX_PATH_LEN"
proof -
  have i: "c_string (''/a/../b//c/./d'' @ [NUL]) = ''/a/../b//c/./d''"
    by code_simp
  have h: "sanitize_path True (''/a/../b//c/./d'' @ [NUL]) = Some (''/b/c/d'' @ replicate 9 NUL)"
    by code_simp
  have h2: "sanitize_path True (''/b/c/d'' @ replicate 9 NUL) = Some (''/b/c/d'' @ [NUL])"
    by code_simp
  have c: "c_string (''/b/c/d'' @ replicate 9 NUL) = ''/b/c/d''"
    by code_simp
  have c2: "c_string (''/b/c/d'' @ [NUL]) = ''/b/c/d''"
    by code_simp
  have ne: "c_string (''/a/../b//c/./d'' @ [NUL]) \<noteq> []"
    unfolding i by simp
  have d: "''/b/c/d'' \<noteq> ''.''"
    by simp
  note a = sanitize_path_idempotent [OF ne h, unfolded c]
  from a i h h2 c c2 d show ?thesis
    by blast
qed

text \<open>
  Claim C10, counterexample to the claim as stated. For the empty string the early return
  hands back the one allocated byte, set to \<^verbatim>\<open>.\<close>, with no NUL after it; and the non-empty
  path \<^verbatim>\<open>a/..\<close> is cleaned to \<^verbatim>\<open>.\<close>, a string that consists of a \<^verbatim>\<open>.\<close> element.
\<close>

theorem sanitize_path_dot_counterexample:
  "sanitize_path True [NUL] = Some ''.'' \<and> \<not> terminated ''.'' \<and>
   map_option c_string (sanitize_path True (''a/..'' @ [NUL])) = Some ''.'' \<and>
   ''.'' \<in> set (elements ''.'')"
  by code_simp

end
